theory Spec2Isabelle
  imports Main
begin

section \<open>Python values and string primitives\<close>

text \<open>
  A Python \<open>str\<close> is modelled as a \<open>string\<close>; one \<open>char\<close> stands for one code point
  below 256. \<open>is_space\<close> is \<open>str.isspace\<close> on that range: the class that
  \<open>str.strip()\<close>, \<open>str.split()\<close> and the regular expression \<open>\s\<close> use. \<open>is_word\<close> is
  the class of the regular expression \<open>\w\<close> (alphanumeric code points and the underscore).
  \<open>upper\<close> is \<open>str.upper\<close> on the strings that satisfy \<open>upper_exact\<close>, those without the
  code points 181, 223 and 255: \<open>str.upper\<close> sends these three to U+039C, to the two
  letters \<open>SS\<close> and to U+0178, which are not single code points below 256, and \<open>upper\<close>
  leaves them as they are. A lower-case letter and its upper-case form differ by 32,
  that is, in the bit of weight 32 only. \<open>_extract_columns\<close>, \<open>_parse_constraint\<close> and
  \<open>field_type\<close> only test \<open>str.upper\<close> of a string against \<open>PRIMARY KEY\<close>, \<open>FOREIGN KEY\<close>
  and the keys of \<open>type_map\<close>, which have neither a code point above 127 nor two \<open>S\<close> in
  a row: these tests come out the same with \<open>upper\<close> on every string. \<open>validate\<close> looks
  the uppercased token up in a set the caller supplies and puts it into its message;
  what is proved of \<open>validate\<close> for all schemas is stated for tokens that satisfy
  \<open>upper_exact\<close>.
\<close>

definition is_space :: "char \<Rightarrow> bool" where
  "is_space c \<longleftrightarrow> (of_char c :: nat) \<in> {9, 10, 11, 12, 13, 28, 29, 30, 31, 32, 133, 160}"

definition is_word :: "char \<Rightarrow> bool" where
  "is_word c \<longleftrightarrow>
     (let n = of_char c :: nat in
        (48 \<le> n \<and> n \<le> 57) \<or> (65 \<le> n \<and> n \<le> 90) \<or> n = 95 \<or> (97 \<le> n \<and> n \<le> 122) \<or>
        n \<in> {170, 178, 179, 181, 185, 186, 188, 189, 190} \<or>
        (192 \<le> n \<and> n \<le> 214) \<or> (216 \<le> n \<and> n \<le> 246) \<or> 248 \<le> n)"

definition upper_char :: "char \<Rightarrow> char" where
  "upper_char c =
     (let n = of_char c :: nat in
        if (97 \<le> n \<and> n \<le> 122) \<or> (224 \<le> n \<and> n \<le> 254 \<and> n \<noteq> 247)
        then (case c of Char b0 b1 b2 b3 b4 b5 b6 b7 \<Rightarrow> Char b0 b1 b2 b3 b4 False b6 b7)
        else c)"

definition upper :: "string \<Rightarrow> string" where
  "upper s = map upper_char s"

definition upper_exact :: "string \<Rightarrow> bool" where
  "upper_exact s \<longleftrightarrow> (\<forall>c \<in> set s. (of_char c :: nat) \<notin> {181, 223, 255})"

definition strip :: "string \<Rightarrow> string" where
  "strip s = rev (dropWhile is_space (rev (dropWhile is_space s)))"

definition startswith :: "string \<Rightarrow> string \<Rightarrow> bool" where
  "startswith s p \<longleftrightarrow> take (length p) s = p"

text \<open>\<open>sep.join(xs)\<close>.\<close>

fun join :: "string \<Rightarrow> string list \<Rightarrow> string" where
  "join sep [] = []"
| "join sep [x] = x"
| "join sep (x # y # ys) = x @ sep @ join sep (y # ys)"

text \<open>
  \<open>s.split()\<close>: the maximal runs of non-whitespace characters. \<open>cur\<close> is the run being
  read.
\<close>

fun split_run :: "string \<Rightarrow> string \<Rightarrow> string list" where
  "split_run cur [] = (if cur = [] then [] else [cur])"
| "split_run cur (c # cs) =
     (if is_space c then (if cur = [] then split_run [] cs else cur # split_run [] cs)
      else split_run (cur @ [c]) cs)"

definition split_ws :: "string \<Rightarrow> string list" where
  "split_ws s = split_run [] s"

text \<open>
  \<open>s.split(None, 1)\<close>: the first run of non-whitespace characters and, when something
  other than whitespace follows it, the rest of the string from there on, trailing
  whitespace included.
\<close>

definition split_ws1 :: "string \<Rightarrow> string list" where
  "split_ws1 s =
     (let s1 = dropWhile is_space s in
        if s1 = [] then []
        else
          let w = takeWhile (\<lambda>c. \<not> is_space c) s1;
              r = dropWhile is_space (dropWhile (\<lambda>c. \<not> is_space c) s1)
          in if r = [] then [w] else [w, r])"

text \<open>\<open>s.find(c)\<close> for a one-character needle: the first index, or \<open>-1\<close>.\<close>

fun find_from :: "int \<Rightarrow> char \<Rightarrow> string \<Rightarrow> int" where
  "find_from i c [] = -1"
| "find_from i c (x # xs) = (if x = c then i else find_from (i + 1) c xs)"

definition str_find :: "string \<Rightarrow> char \<Rightarrow> int" where
  "str_find s c = find_from 0 c s"

text \<open>The slices \<open>s[:n]\<close> and \<open>s[n:]\<close> for \<open>n \<ge> 0\<close>.\<close>

definition slice_to :: "string \<Rightarrow> int \<Rightarrow> string" where
  "slice_to s n = take (nat n) s"

definition slice_from :: "string \<Rightarrow> int \<Rightarrow> string" where
  "slice_from s n = drop (nat n) s"

text \<open>
  A \<open>dict\<close> keeps its keys in insertion order, so it is an association list with distinct
  keys; \<open>d[k] = v\<close> replaces the value of a key that is present, in place, and appends a
  new key at the end.
\<close>

fun dict_set :: "'k \<Rightarrow> 'v \<Rightarrow> ('k \<times> 'v) list \<Rightarrow> ('k \<times> 'v) list" where
  "dict_set k v [] = [(k, v)]"
| "dict_set k v (p # d) = (if fst p = k then (k, v) # d else p # dict_set k v d)"

datatype pyval = PyNone | PyInt int | PyStr string | PyFloat int int | PyBool bool | PyBytes string

datatype error =
    ValueError string
  | IndexError
  | TypeError string
  | EngineError

type_synonym table_def = "(string \<times> string) list"
type_synonym schema = "(string \<times> table_def) list"

section \<open>\<open>SchemaParser.generate_sql\<close>\<close>

text \<open>
  A schema is a \<open>dict\<close> from table names to table definitions, a table definition a
  \<open>dict\<close> from member names to definition strings. \<open>is_constraint_name\<close> is the test
  \<open>col_name.startswith(("PRIMARY KEY", "UNIQUE", "CHECK", "FOREIGN KEY"))\<close>.
\<close>

definition is_constraint_name :: "string \<Rightarrow> bool" where
  "is_constraint_name col_name \<longleftrightarrow>
     startswith col_name ''PRIMARY KEY'' \<or> startswith col_name ''UNIQUE'' \<or>
     startswith col_name ''CHECK'' \<or> startswith col_name ''FOREIGN KEY''"

text \<open>\<open>idxs and col_name in idxs\<close>.\<close>

definition hinted :: "string list option \<Rightarrow> string \<Rightarrow> bool" where
  "hinted idxs col_name \<longleftrightarrow> (case idxs of None \<Rightarrow> False | Some xs \<Rightarrow> xs \<noteq> [] \<and> col_name \<in> set xs)"

definition index_sql :: "string \<Rightarrow> string \<Rightarrow> string" where
  "index_sql table_name col_name =
     ''CREATE INDEX IF NOT EXISTS idx_'' @ table_name @ ''_'' @ col_name @
     '' ON '' @ table_name @ '' ('' @ col_name @ '');''"

text \<open>
  One round of the outer loop of \<open>generate_sql\<close>. The inner loop appends every member to
  \<open>column_defs\<close> or to \<open>constraints\<close> and, when hinted, to \<open>indexes\<close>: three filters of
  the member list.
\<close>

definition create_table_sql :: "string \<Rightarrow> table_def \<Rightarrow> string" where
  "create_table_sql table_name columns =
     (let column_defs = [col_name @ '' '' @ col_type.
                           (col_name, col_type) \<leftarrow> columns, \<not> is_constraint_name col_name];
          constraints = [col_name @ '' '' @ col_type.
                           (col_name, col_type) \<leftarrow> columns, is_constraint_name col_name];
          all_defs = column_defs @ constraints;
          columns_sql = join '',\<newline>    '' all_defs
      in ''CREATE TABLE IF NOT EXISTS '' @ table_name @ '' (\<newline>    '' @ columns_sql @ ''\<newline>);'')"

definition table_indexes :: "string list option \<Rightarrow> string \<Rightarrow> table_def \<Rightarrow> string list" where
  "table_indexes idxs table_name columns =
     [index_sql table_name col_name. (col_name, col_type) \<leftarrow> columns, hinted idxs col_name]"

definition fields_for_dataclass :: "table_def \<Rightarrow> string list" where
  "fields_for_dataclass columns =
     [col_name. (col_name, col_type) \<leftarrow> columns, \<not> is_constraint_name col_name]"

definition sql_statements :: "schema \<Rightarrow> string list option \<Rightarrow> string list" where
  "sql_statements schema idxs =
     concat [create_table_sql table_name columns # table_indexes idxs table_name columns.
               (table_name, columns) \<leftarrow> schema]"

definition generate_sql ::
  "schema \<Rightarrow> string list option \<Rightarrow> string \<times> (string \<times> string list) list" where
  "generate_sql schema idxs =
     (join ''\<newline>\<newline>'' (sql_statements schema idxs),
      [(table_name, fields_for_dataclass columns). (table_name, columns) \<leftarrow> schema])"

section \<open>\<open>SchemaValidator.validate\<close>\<close>

definition default_sql_types :: "string list" where
  "default_sql_types =
     [''INTEGER'', ''TEXT'', ''REAL'', ''BLOB'', ''BOOLEAN'', ''DECIMAL'', ''TIMESTAMP'']"

text \<open>\<open>default_sql_types if not sql_types else sql_types\<close>: \<open>None\<close> and an empty
  collection both select the defaults.\<close>

definition required_sql_types :: "string list option \<Rightarrow> string list" where
  "required_sql_types sql_types =
     (case sql_types of
        None \<Rightarrow> default_sql_types
      | Some ts \<Rightarrow> if ts = [] then default_sql_types else ts)"

definition invalid_sql_type :: "string \<Rightarrow> string \<Rightarrow> string \<Rightarrow> error" where
  "invalid_sql_type base_sql_type table column_name =
     ValueError (''Invalid SQL type '' @ [CHR 0x27] @ base_sql_type @ [CHR 0x27] @
                 '' in table '' @ [CHR 0x27] @ table @ [CHR 0x27] @
                 '', column '' @ [CHR 0x27] @ column_name @ [CHR 0x27])"

text \<open>
  The inner loop over the members of one table. \<open>column_type.split()[0]\<close> raises
  \<open>IndexError\<close> on a definition with no token; \<open>base_sql_type.split('(')[0]\<close> is the
  token up to its first opening parenthesis.
\<close>

fun validate_columns :: "string list \<Rightarrow> string \<Rightarrow> table_def \<Rightarrow> error + unit" where
  "validate_columns types table [] = Inr ()"
| "validate_columns types table ((column_name, column_type) # columns) =
     (if startswith column_name ''PRIMARY KEY'' \<or> startswith column_name ''FOREIGN KEY'' \<or>
         startswith column_name ''CHECK'' \<or> startswith column_name ''UNIQUE''
      then validate_columns types table columns
      else
        (case split_ws column_type of
           [] \<Rightarrow> Inl IndexError
         | tok # _ \<Rightarrow>
             if upper tok \<in> set [''PRIMARY'', ''FOREIGN'', ''CHECK'', ''UNIQUE'']
             then validate_columns types table columns
             else if takeWhile (\<lambda>c. c \<noteq> CHR ''('') (upper tok) \<notin> set types
             then Inl (invalid_sql_type (takeWhile (\<lambda>c. c \<noteq> CHR ''('') (upper tok))
                         table column_name)
             else validate_columns types table columns))"

fun validate_tables :: "string list \<Rightarrow> schema \<Rightarrow> error + unit" where
  "validate_tables types [] = Inr ()"
| "validate_tables types ((table, columns) # schema) =
     (case validate_columns types table columns of
        Inl e \<Rightarrow> Inl e
      | Inr _ \<Rightarrow> validate_tables types schema)"

definition validate :: "schema \<Rightarrow> string list option \<Rightarrow> error + bool" where
  "validate schema sql_types =
     (case validate_tables (required_sql_types sql_types) schema of
        Inl e \<Rightarrow> Inl e
      | Inr _ \<Rightarrow> Inr True)"

section \<open>\<open>SqlStrToDict\<close>: the DDL parser\<close>

text \<open>A literal of a regular expression under \<open>re.IGNORECASE\<close>, matched at the start of
  \<open>s\<close>.\<close>

definition ci_startswith :: "string \<Rightarrow> string \<Rightarrow> bool" where
  "ci_startswith s p \<longleftrightarrow> startswith (upper s) (upper p)"

text \<open>
  \<open>_split_statements\<close> is \<open>re.findall(r'CREATE TABLE.*?\);', schema_str, re.DOTALL |
  re.IGNORECASE)\<close>. \<open>find_close\<close> is the lazy \<open>.*?\);\<close>: the text up to and including the
  first \<open>);\<close>, and what follows it. \<open>findall\<close> tries every position from the left and
  goes on after the end of a match.
\<close>

fun find_close :: "string \<Rightarrow> (string \<times> string) option" where
  "find_close [] = None"
| "find_close [c] = None"
| "find_close (c # d # cs) =
     (if c = CHR '')'' \<and> d = CHR '';'' then Some ([c, d], cs)
      else (case find_close (d # cs) of
              None \<Rightarrow> None
            | Some (m, r) \<Rightarrow> Some (c # m, r)))"

function split_statements :: "string \<Rightarrow> string list" where
  "split_statements s =
     (if s = [] then []
      else if ci_startswith s ''CREATE TABLE''
      then (case find_close (drop 12 s) of
              None \<Rightarrow> split_statements (tl s)
            | Some (m, r) \<Rightarrow> (take 12 s @ m) # split_statements r)
      else split_statements (tl s))"
  by pat_completeness auto
termination
proof (relation "measure length")
  show "wf (measure length)" by simp
next
  fix s :: string
  assume "s \<noteq> []"
  then show "(tl s, s) \<in> measure length" by (cases s) auto
next
  fix s :: string
  assume "s \<noteq> []"
  then show "(tl s, s) \<in> measure length" by (cases s) auto
next
  fix s x2 :: string and p :: "string \<times> string" and m r :: string
  assume ne: "s \<noteq> []" and f: "find_close (drop 12 s) = Some p" and p: "(m, r) = p"
  have shorter: "find_close xs = Some (a, b) \<Longrightarrow> length b < length xs" for xs a b
    by (induction xs arbitrary: a rule: find_close.induct)
       (auto split: if_splits option.splits)
  from f p have "find_close (drop 12 s) = Some (m, r)" by simp
  from shorter [OF this] show "(r, s) \<in> measure length" by simp
qed

text \<open>
  \<open>_extract_table_name\<close>: \<open>re.search\<close> of \<open>kw\s+(\w+)\s*\(\<close> for the keyword phrase
  \<open>kw\<close>. Whitespace, word characters and the parenthesis are disjoint classes, so at a
  given position the only possible match takes the maximal runs.
\<close>

definition match_name_at :: "string \<Rightarrow> string \<Rightarrow> string option" where
  "match_name_at kw s =
     (if ci_startswith s kw
      then
        let r = drop (length kw) s;
            r1 = dropWhile is_space r;
            w = takeWhile is_word r1;
            r2 = dropWhile is_space (dropWhile is_word r1)
        in if r \<noteq> r1 \<and> w \<noteq> [] \<and> take 1 r2 = ''('' then Some w else None
      else None)"

fun search_name :: "string \<Rightarrow> string \<Rightarrow> string option" where
  "search_name kw [] = match_name_at kw []"
| "search_name kw (c # cs) =
     (case match_name_at kw (c # cs) of
        Some w \<Rightarrow> Some w
      | None \<Rightarrow> search_name kw cs)"

definition extract_table_name :: "string \<Rightarrow> error + string" where
  "extract_table_name statement =
     (case search_name ''CREATE TABLE IF NOT EXISTS'' statement of
        Some w \<Rightarrow> Inr w
      | None \<Rightarrow>
          (case search_name ''CREATE TABLE'' statement of
             Some w \<Rightarrow> Inr w
           | None \<Rightarrow> Inl (ValueError ''Table name not found in statement.'')))"

text \<open>
  \<open>re.search(r'\((.*)\)', statement, re.DOTALL)\<close>: from the first opening parenthesis
  to the last closing parenthesis after it; the group is the text between them.
\<close>

definition extract_body :: "string \<Rightarrow> string option" where
  "extract_body statement =
     (case dropWhile (\<lambda>c. c \<noteq> CHR ''('') statement of
        [] \<Rightarrow> None
      | _ # r \<Rightarrow>
          if CHR '')'' \<in> set r
          then Some (rev (tl (dropWhile (\<lambda>c. c \<noteq> CHR '')'') (rev r))))
          else None)"

text \<open>
  The \<open>while\<close> loop of \<open>_split_columns\<close>, by recursion on the characters still to be
  read; \<open>columns\<close>, \<open>parens\<close> and \<open>current_col\<close> are the loop's three variables.
\<close>

fun split_loop :: "string \<Rightarrow> string list \<Rightarrow> int \<Rightarrow> string \<Rightarrow> string list \<times> string" where
  "split_loop [] columns parens current_col = (columns, current_col)"
| "split_loop (c # cs) columns parens current_col =
     (if c = CHR '','' \<and> parens = 0
      then split_loop cs (columns @ [strip current_col]) parens []
      else split_loop cs columns
             (if c = CHR ''('' then parens + 1
              else if c = CHR '')'' then parens - 1 else parens)
             (current_col @ [c]))"

definition split_columns :: "string \<Rightarrow> string list" where
  "split_columns columns_str =
     (case split_loop columns_str [] 0 [] of
        (columns, current_col) \<Rightarrow>
          if strip current_col \<noteq> [] then columns @ [strip current_col] else columns)"

definition unpack_error :: error where
  "unpack_error = ValueError ''not enough values to unpack (expected 2, got 1)''"

definition parse_column :: "string \<Rightarrow> error + (string \<times> string)" where
  "parse_column column_str =
     (case split_ws1 column_str of
        [column_name, column_def] \<Rightarrow> Inr (strip column_name, strip column_def)
      | _ \<Rightarrow> Inl (ValueError (''Invalid column definition: '' @ [CHR 0x27] @ column_str @ [CHR 0x27])))"

definition parse_constraint :: "string \<Rightarrow> error + (string \<times> string)" where
  "parse_constraint constraint_str0 =
     (let constraint_str = strip constraint_str0 in
        if startswith (upper constraint_str) ''FOREIGN KEY''
        then
          let key_end = str_find constraint_str CHR '')'' in
            Inr (strip (slice_to constraint_str (key_end + 1)),
                 strip (strip (slice_from constraint_str (key_end + 1))))
        else if startswith (upper constraint_str) ''PRIMARY KEY''
        then
          let key_end = str_find constraint_str CHR '')'' in
            if key_end \<noteq> -1
            then Inr (strip ''PRIMARY KEY'',
                      strip (strip (slice_from constraint_str (int (length ''PRIMARY KEY'')))))
            else (case split_ws1 constraint_str of
                    [key, val] \<Rightarrow> Inr (strip key, strip val)
                  | _ \<Rightarrow> Inl unpack_error)
        else
          (case split_ws constraint_str of
             [] \<Rightarrow> Inl IndexError
           | key # vals \<Rightarrow> Inr (strip key, strip (join '' '' vals))))"

text \<open>The loop of \<open>_extract_columns\<close> over the split members; \<open>columns\<close> is the \<open>dict\<close>
  being filled.\<close>

fun columns_loop :: "string list \<Rightarrow> table_def \<Rightarrow> error + table_def" where
  "columns_loop [] columns = Inr columns"
| "columns_loop (col0 # columns_list) columns =
     (let col = strip col0 in
        if col = [] then columns_loop columns_list columns
        else
          (case (if startswith (upper col) ''FOREIGN KEY'' \<or> startswith (upper col) ''PRIMARY KEY''
                 then parse_constraint col else parse_column col) of
             Inl e \<Rightarrow> Inl e
           | Inr (key, val) \<Rightarrow> columns_loop columns_list (dict_set key val columns)))"

definition extract_columns :: "string \<Rightarrow> error + table_def" where
  "extract_columns statement =
     (case extract_body statement of
        None \<Rightarrow> Inl (ValueError ''Column definitions not found.'')
      | Some columns_str \<Rightarrow> columns_loop (split_columns columns_str) [])"

fun parse_loop :: "string list \<Rightarrow> schema \<Rightarrow> error + schema" where
  "parse_loop [] tables = Inr tables"
| "parse_loop (stmt # statements) tables =
     (case extract_table_name stmt of
        Inl e \<Rightarrow> Inl e
      | Inr table_name \<Rightarrow>
          (case extract_columns stmt of
             Inl e \<Rightarrow> Inl e
           | Inr columns \<Rightarrow> parse_loop statements (dict_set table_name columns tables)))"

definition parse :: "string \<Rightarrow> error + schema" where
  "parse schema_str = parse_loop (split_statements schema_str) []"

section \<open>\<open>RepoDataClass\<close>: the record-type factory\<close>

datatype host_type = HInt | HStr | HFloat | HBytes | HBool

definition type_map :: "(string \<times> host_type) list" where
  "type_map =
     [(''INTEGER'', HInt), (''TEXT'', HStr), (''REAL'', HFloat), (''BLOB'', HBytes),
      (''BOOLEAN'', HBool), (''DECIMAL'', HFloat), (''TIMESTAMP'', HStr)]"

text \<open>\<open>field_type\<close> returns the host type and the field's default, \<open>field(default=None)\<close>.
  Its only argument is the field's name.\<close>

definition field_type :: "string \<Rightarrow> host_type \<times> pyval" where
  "field_type field_name =
     (if field_name = ''id'' then (HInt, PyNone)
      else (case map_of type_map (upper field_name) of
              Some t \<Rightarrow> (t, PyNone)
            | None \<Rightarrow> (HStr, PyNone)))"

text \<open>
  A generated dataclass is the list of its fields: name, host type, default.
  \<open>prepared_fields\<close> is a \<open>dict\<close> comprehension over \<open>_fields\<close>.
  \<open>dataclasses.make_dataclass\<close> belongs to the standard library; it raises \<open>TypeError\<close>
  on field names it does not accept, and \<open>accepts\<close> stands for that test.
\<close>

type_synonym record_type = "(string \<times> host_type \<times> pyval) list"

definition prepared_fields :: "string list \<Rightarrow> (string \<times> host_type \<times> pyval) list" where
  "prepared_fields flds = fold (\<lambda>key d. dict_set key (field_type key) d) flds []"

definition RepoDataClass :: "(string list \<Rightarrow> bool) \<Rightarrow> string \<Rightarrow> string list \<Rightarrow> error + record_type" where
  "RepoDataClass accepts table_name flds =
     (if accepts (map fst (prepared_fields flds)) then Inr (prepared_fields flds)
      else Inl (TypeError ''make_dataclass''))"

section \<open>\<open>RepositoryFactory.create_repository\<close>\<close>

text \<open>
  A repository object closes over \<open>table_name\<close>, \<open>schema_fields\<close> and \<open>RepoData\<close>;
  \<open>repo_id\<close> is its identity as an object. The class attribute \<open>_instances\<close> is the
  cache; \<open>allocated\<close> counts the repository objects constructed so far.
\<close>

record repository =
  repo_id :: nat
  repo_table :: string
  repo_schema_fields :: table_def
  RepoData :: record_type

record factory =
  instances :: "(string \<times> repository) list"
  allocated :: nat

definition create_repository ::
  "(string list \<Rightarrow> bool) \<Rightarrow> string \<Rightarrow> table_def \<Rightarrow> string list \<Rightarrow> factory \<Rightarrow>
     (error + repository) \<times> factory" where
  "create_repository accepts table_name schema_fields flds f =
     (case map_of (instances f) table_name of
        Some r \<Rightarrow> (Inr r, f)
      | None \<Rightarrow>
          (case RepoDataClass accepts table_name flds of
             Inl e \<Rightarrow> (Inl e, f)
           | Inr rd \<Rightarrow>
               let r = \<lparr>repo_id = allocated f, repo_table = table_name,
                        repo_schema_fields = schema_fields, RepoData = rd\<rparr>
               in (Inr r, \<lparr>instances = dict_set table_name r (instances f),
                           allocated = Suc (allocated f)\<rparr>)))"

text \<open>A run of requests \<open>(table_name, schema_fields, _fields)\<close> against the cache.\<close>

fun create_all ::
  "(string list \<Rightarrow> bool) \<Rightarrow> (string \<times> table_def \<times> string list) list \<Rightarrow> factory \<Rightarrow> factory" where
  "create_all accepts [] f = f"
| "create_all accepts ((table_name, schema_fields, flds) # reqs) f =
     create_all accepts reqs (snd (create_repository accepts table_name schema_fields flds f))"

section \<open>The SQL engine and \<open>DatabaseConnection\<close>\<close>

text \<open>
  The engine (\<open>aiosqlite\<close>) is outside the repository. A \<open>call\<close> is one request to it; a
  handle is the number of the \<open>connect\<close> that opened it. The engine is a parameter: any
  function that answers a call, given the calls made before it, by raising or by
  returning. A \<open>world\<close> is the calls made so far and the \<open>conn\<close> attribute of the
  connection manager.
\<close>

record cursor =
  lastrowid :: "int option"
  rowcount :: int
  fetched :: "pyval list list"

datatype call =
    Connect string
  | Execute nat string "(string \<times> pyval) list"
  | Fetchall nat
  | Fetchone nat
  | Commit nat
  | Rollback nat
  | Close nat

datatype reply = Raises | Returns cursor

type_synonym engine = "call list \<Rightarrow> call \<Rightarrow> reply"

record world =
  trace :: "call list"
  conn :: "nat option"

record manager =
  db_path :: string
  has_foreign_keys :: bool

definition issue :: "engine \<Rightarrow> call \<Rightarrow> world \<Rightarrow> reply \<times> world" where
  "issue eng c w = (eng (trace w) c, w\<lparr>trace := trace w @ [c]\<rparr>)"

fun is_connect :: "call \<Rightarrow> bool" where
  "is_connect (Connect _) = True"
| "is_connect _ = False"

text \<open>\<open>__aenter__\<close>: connects when no handle is held, and then switches foreign keys on
  if the schema has any.\<close>

definition aenter :: "engine \<Rightarrow> manager \<Rightarrow> world \<Rightarrow> (error + nat) \<times> world" where
  "aenter eng m w =
     (case conn w of
        Some h \<Rightarrow> (Inr h, w)
      | None \<Rightarrow>
          (case issue eng (Connect (db_path m)) w of
             (Raises, w1) \<Rightarrow> (Inl EngineError, w1)
           | (Returns _, w1) \<Rightarrow>
               let h = length (filter is_connect (trace w));
                   w2 = w1\<lparr>conn := Some h\<rparr>
               in if has_foreign_keys m
                  then (case issue eng (Execute h ''PRAGMA foreign_keys = ON;'' []) w2 of
                          (Raises, w3) \<Rightarrow> (Inl EngineError, w3)
                        | (Returns _, w3) \<Rightarrow> (Inr h, w3))
                  else (Inr h, w2)))"

text \<open>\<open>__aexit__\<close>: closes the handle held and forgets it.\<close>

definition aexit :: "engine \<Rightarrow> world \<Rightarrow> (error + unit) \<times> world" where
  "aexit eng w =
     (case conn w of
        None \<Rightarrow> (Inr (), w)
      | Some h \<Rightarrow>
          (case issue eng (Close h) w of
             (Raises, w1) \<Rightarrow> (Inl EngineError, w1)
           | (Returns _, w1) \<Rightarrow> (Inr (), w1\<lparr>conn := None\<rparr>)))"

section \<open>The generated repository\<close>

text \<open>
  A record instance is its \<open>dc_dict()\<close>: the fields in declaration order with their
  values.
\<close>

type_synonym data = "(string \<times> pyval) list"

definition dc_to_insertion_query :: "string \<Rightarrow> data \<Rightarrow> string" where
  "dc_to_insertion_query table_name d =
     (let data_dict = [(k, v) \<leftarrow> d. v \<noteq> PyNone \<or> k \<noteq> ''id''];
          keys = map fst data_dict;
          cols = join '', '' keys;
          vals = join '', '' [CHR '':'' # key. key \<leftarrow> keys]
      in ''INSERT OR REPLACE INTO '' @ table_name @ '' ('' @ cols @ '') VALUES ('' @ vals @ '')'')"

text \<open>
  \<open>query_conditions\<close>; \<open>kwargs\<close> are the keyword filters in argument order. A keyword
  named \<open>self\<close>, \<open>select\<close>, \<open>select_batch\<close> or \<open>delete\<close> is no filter: Python binds it to
  the parameter of that name. \<open>kwargs\<close> stands for filters with other names.
\<close>

definition query_conditions ::
  "string \<Rightarrow> bool \<Rightarrow> bool \<Rightarrow> bool \<Rightarrow> (string \<times> pyval) list \<Rightarrow> error + string" where
  "query_conditions table_name select select_batch delete_flag kwargs =
     (let conditions = join '' AND '' [key @ '' = :'' @ key. key \<leftarrow> map fst kwargs] in
        if select
        then Inr (''SELECT * FROM '' @ table_name @ '' WHERE '' @ conditions @ '' LIMIT 1'')
        else if select_batch
        then Inr (''SELECT * FROM '' @ table_name @ '' WHERE '' @
                  (if kwargs \<noteq> [] then conditions else ''1=1''))
        else if delete_flag
        then Inr (''DELETE FROM '' @ table_name @ '' WHERE '' @ conditions)
        else Inl (ValueError ''Wrong query conditions''))"

text \<open>
  What \<open>_execute\<close> returns: \<open>(result, cursor)\<close> after a fetch, \<open>(cursor, None)\<close>
  otherwise, \<open>(None, None)\<close> from its exception handler.
\<close>

datatype exec_result =
    NoResult
  | Rows "pyval list list" cursor
  | Row "pyval list option" cursor
  | Cur cursor

text \<open>The \<open>except\<close> clause of \<open>_execute\<close>: a failing \<open>rollback\<close> leaves it as an
  exception.\<close>

definition on_exception :: "engine \<Rightarrow> nat \<Rightarrow> bool \<Rightarrow> world \<Rightarrow> (error + exec_result) \<times> world" where
  "on_exception eng h transaction w =
     (if transaction
      then (case issue eng (Rollback h) w of
              (Raises, w1) \<Rightarrow> (Inl EngineError, w1)
            | (Returns _, w1) \<Rightarrow> (Inr NoResult, w1))
      else (Inr NoResult, w))"

text \<open>The \<open>try\<close> block of \<open>_execute\<close>, after its optional \<open>BEGIN TRANSACTION\<close>.\<close>

definition run_query ::
  "engine \<Rightarrow> nat \<Rightarrow> string \<Rightarrow> (string \<times> pyval) list \<Rightarrow> bool \<Rightarrow> bool \<Rightarrow> bool \<Rightarrow> bool \<Rightarrow> world \<Rightarrow>
     (error + exec_result) \<times> world" where
  "run_query eng h query params transaction commit fetch_all fetch_one w =
     (case issue eng (Execute h query params) w of
        (Raises, w1) \<Rightarrow> on_exception eng h transaction w1
      | (Returns cur, w1) \<Rightarrow>
          if fetch_all
          then (case issue eng (Fetchall h) w1 of
                  (Raises, w2) \<Rightarrow> on_exception eng h transaction w2
                | (Returns res, w2) \<Rightarrow> (Inr (Rows (fetched res) cur), w2))
          else if fetch_one
          then (case issue eng (Fetchone h) w1 of
                  (Raises, w2) \<Rightarrow> on_exception eng h transaction w2
                | (Returns res, w2) \<Rightarrow>
                    (Inr (Row (case fetched res of [] \<Rightarrow> None | r # _ \<Rightarrow> Some r) cur), w2))
          else if commit
          then (case issue eng (Commit h) w1 of
                  (Raises, w2) \<Rightarrow> on_exception eng h transaction w2
                | (Returns _, w2) \<Rightarrow> (Inr (Cur cur), w2))
          else (Inr (Cur cur), w1))"

definition execute_body ::
  "engine \<Rightarrow> nat \<Rightarrow> string \<Rightarrow> (string \<times> pyval) list \<Rightarrow> bool \<Rightarrow> bool \<Rightarrow> bool \<Rightarrow> bool \<Rightarrow> world \<Rightarrow>
     (error + exec_result) \<times> world" where
  "execute_body eng h query params transaction commit fetch_all fetch_one w =
     (if transaction
      then (case issue eng (Execute h ''BEGIN TRANSACTION;'' []) w of
              (Raises, w1) \<Rightarrow> on_exception eng h transaction w1
            | (Returns _, w1) \<Rightarrow>
                run_query eng h query params transaction commit fetch_all fetch_one w1)
      else run_query eng h query params transaction commit fetch_all fetch_one w)"

text \<open>
  \<open>_execute\<close>: the body inside \<open>async with self.connection_manager as conn\<close>. An
  exception of \<open>__aenter__\<close> skips the body and \<open>__aexit__\<close>; an exception of
  \<open>__aexit__\<close> replaces the body's outcome.
\<close>

definition execute ::
  "engine \<Rightarrow> manager \<Rightarrow> string \<Rightarrow> (string \<times> pyval) list \<Rightarrow> bool \<Rightarrow> bool \<Rightarrow> bool \<Rightarrow> bool \<Rightarrow> world \<Rightarrow>
     (error + exec_result) \<times> world" where
  "execute eng m query params transaction commit fetch_all fetch_one w =
     (case aenter eng m w of
        (Inl e, w1) \<Rightarrow> (Inl e, w1)
      | (Inr h, w1) \<Rightarrow>
          (case execute_body eng h query params transaction commit fetch_all fetch_one w1 of
             (r, w2) \<Rightarrow>
               (case aexit eng w2 of
                  (Inl e, w3) \<Rightarrow> (Inl e, w3)
                | (Inr _, w3) \<Rightarrow> (r, w3))))"

text \<open>
  \<open>id_check\<close> returns \<open>None\<close> without a cursor, and otherwise whether the cursor has a
  row id, after storing that row id in an \<open>id\<close> field that was \<open>None\<close>.
\<close>

definition rowid_val :: "cursor \<Rightarrow> pyval" where
  "rowid_val c = (case lastrowid c of None \<Rightarrow> PyNone | Some i \<Rightarrow> PyInt i)"

definition id_check :: "exec_result \<Rightarrow> data \<Rightarrow> bool option \<times> data" where
  "id_check res d =
     (case res of
        Cur c \<Rightarrow>
          (Some (lastrowid c \<noteq> None),
           if map_of d ''id'' = Some PyNone then dict_set ''id'' (rowid_val c) d else d)
      | _ \<Rightarrow> (None, d))"

definition save_single ::
  "engine \<Rightarrow> manager \<Rightarrow> string \<Rightarrow> data \<Rightarrow> world \<Rightarrow> (bool option \<times> data) \<times> world" where
  "save_single eng m table_name d w =
     (case execute eng m (dc_to_insertion_query table_name d) d False True False False w of
        (Inl e, w1) \<Rightarrow> ((Some False, d), w1)
      | (Inr res, w1) \<Rightarrow> (id_check res d, w1))"

text \<open>
  The \<open>for\<close> loop of \<open>save_many\<close>. It returns whether it ran to its end without an
  exception, and the records as the calls of \<open>id_check\<close> left them.
\<close>

fun save_many_loop ::
  "engine \<Rightarrow> manager \<Rightarrow> string \<Rightarrow> data list \<Rightarrow> world \<Rightarrow> (bool \<times> data list) \<times> world" where
  "save_many_loop eng m table_name [] w = ((True, []), w)"
| "save_many_loop eng m table_name (d # data_list) w =
     (case execute eng m (dc_to_insertion_query table_name d) d True True False False w of
        (Inl e, w1) \<Rightarrow> ((False, d # data_list), w1)
      | (Inr res, w1) \<Rightarrow>
          (case save_many_loop eng m table_name data_list w1 of
             ((ok, rest), w2) \<Rightarrow> ((ok, snd (id_check res d) # rest), w2)))"

definition save_many ::
  "engine \<Rightarrow> manager \<Rightarrow> string \<Rightarrow> data list \<Rightarrow> world \<Rightarrow> (bool \<times> data list) \<times> world" where
  "save_many eng m table_name data_list w =
     (if data_list = [] then ((False, []), w)
      else save_many_loop eng m table_name data_list w)"

text \<open>\<open>delete\<close>: the statement is built before the \<open>try\<close>, so an error of
  \<open>query_conditions\<close> reaches the caller. The filters are passed on as
  \<open>query_conditions(delete=True, **kwargs)\<close>; as there, \<open>kwargs\<close> stands for filters named
  otherwise than the parameters of \<open>query_conditions\<close>.\<close>

definition delete ::
  "engine \<Rightarrow> manager \<Rightarrow> string \<Rightarrow> (string \<times> pyval) list \<Rightarrow> world \<Rightarrow> (error + bool) \<times> world" where
  "delete eng m table_name kwargs w =
     (case query_conditions table_name False False True kwargs of
        Inl e \<Rightarrow> (Inl e, w)
      | Inr query \<Rightarrow>
          (case execute eng m query kwargs True True False False w of
             (Inr (Cur c), w1) \<Rightarrow> (Inr (0 < rowcount c), w1)
           | (_, w1) \<Rightarrow> (Inr False, w1)))"

section \<open>Notions of the specification\<close>

text \<open>
  The paren depth of a text: opening minus closing parentheses. \<open>top_level_pieces d s\<close>
  cuts \<open>s\<close>, read from depth \<open>d\<close>, at its commas of depth zero. \<open>nested_commas d r\<close>: no
  comma of \<open>r\<close>, read from depth \<open>d\<close>, is at depth zero.
\<close>

definition paren_depth :: "string \<Rightarrow> int" where
  "paren_depth s = int (count_list s CHR ''('') - int (count_list s CHR '')'')"

fun top_level_pieces :: "int \<Rightarrow> string \<Rightarrow> string list" where
  "top_level_pieces d [] = [] # []"
| "top_level_pieces d (c # cs) =
     (if c = CHR '','' \<and> d = 0 then [] # top_level_pieces d cs
      else (case top_level_pieces (d + paren_depth [c]) cs of
              [] \<Rightarrow> [c] # []
            | p # ps \<Rightarrow> (c # p) # ps))"

definition nested_commas :: "int \<Rightarrow> string \<Rightarrow> bool" where
  "nested_commas d r \<longleftrightarrow>
     (\<forall>i<length r. r ! i = CHR '','' \<longrightarrow> d + paren_depth (take i r) \<noteq> 0)"

text \<open>The statement that the specification describes for \<open>save_single\<close>, over a list of
  columns, and the fields it is to range over.\<close>

definition insert_or_replace :: "string \<Rightarrow> string list \<Rightarrow> string" where
  "insert_or_replace table_name cols =
     ''INSERT OR REPLACE INTO '' @ table_name @ '' ('' @ join '', '' cols @
     '') VALUES ('' @ join '', '' (map (\<lambda>c. '':'' @ c) cols) @ '')''"

definition saved_fields :: "data \<Rightarrow> string list" where
  "saved_fields d = [k. (k, v) \<leftarrow> d, v \<noteq> PyNone \<or> k \<noteq> ''id'']"

text \<open>
  Notions for the validator. \<open>base_type_token\<close> is the uppercased first token of a
  definition, cut at its first opening parenthesis. \<open>every_type_recognized\<close> and
  \<open>some_type_outside\<close> are the conditions of the specification read as they are written:
  every data column's base type token is in the recognized set; some data column's base
  type token is outside both the recognized set and the four keywords.
  \<open>checked_type\<close> is the type under which a member is checked, if it is checked at all:
  a member with a constraint name, and a data column whose uppercased first token is one
  of the four keywords, are not checked. \<open>mismatches\<close> lists, in iteration order, the
  checked members whose type is not recognized. \<open>all_typed\<close>: every data column's
  definition has a token. \<open>tokens_upper_exact\<close>: the first token of every data column's
  definition satisfies \<open>upper_exact\<close>, so that \<open>upper\<close> of it is what \<open>str.upper\<close> returns.
\<close>

definition keyword_tokens :: "string list" where
  "keyword_tokens = [''PRIMARY'', ''FOREIGN'', ''CHECK'', ''UNIQUE'']"

definition base_type_token :: "string \<Rightarrow> string option" where
  "base_type_token d =
     (case split_ws d of
        [] \<Rightarrow> None
      | tok # _ \<Rightarrow> Some (takeWhile (\<lambda>c. c \<noteq> CHR ''('') (upper tok)))"

definition checked_type :: "string \<Rightarrow> string \<Rightarrow> string option" where
  "checked_type name d =
     (if is_constraint_name name then None
      else (case split_ws d of
              [] \<Rightarrow> None
            | tok # _ \<Rightarrow>
                if upper tok \<in> set keyword_tokens then None
                else Some (takeWhile (\<lambda>c. c \<noteq> CHR ''('') (upper tok))))"

definition table_mismatches :: "string list \<Rightarrow> string \<Rightarrow> table_def \<Rightarrow> (string \<times> string \<times> string) list" where
  "table_mismatches types table cols =
     [(table, name, ty). (name, d) \<leftarrow> cols, ty \<leftarrow> (case checked_type name d of None \<Rightarrow> [] | Some ty \<Rightarrow> [ty]),
        ty \<notin> set types]"

definition mismatches :: "string list \<Rightarrow> schema \<Rightarrow> (string \<times> string \<times> string) list" where
  "mismatches types schema =
     concat [table_mismatches types table cols. (table, cols) \<leftarrow> schema]"

definition all_typed :: "schema \<Rightarrow> bool" where
  "all_typed schema \<longleftrightarrow>
     (\<forall>(table, cols) \<in> set schema. \<forall>(name, d) \<in> set cols.
        \<not> is_constraint_name name \<longrightarrow> split_ws d \<noteq> [])"

definition tokens_upper_exact :: "schema \<Rightarrow> bool" where
  "tokens_upper_exact schema \<longleftrightarrow>
     (\<forall>(table, cols) \<in> set schema. \<forall>(name, d) \<in> set cols.
        \<not> is_constraint_name name \<longrightarrow> list_all upper_exact (take 1 (split_ws d)))"

definition some_type_outside :: "string list \<Rightarrow> schema \<Rightarrow> bool" where
  "some_type_outside types schema \<longleftrightarrow>
     (\<exists>(table, cols) \<in> set schema. \<exists>(name, d) \<in> set cols.
        \<not> is_constraint_name name \<and>
        (\<exists>ty. base_type_token d = Some ty \<and> ty \<notin> set types \<and> ty \<notin> set keyword_tokens))"

definition every_type_recognized :: "string list \<Rightarrow> schema \<Rightarrow> bool" where
  "every_type_recognized types schema \<longleftrightarrow>
     (\<forall>(table, cols) \<in> set schema. \<forall>(name, d) \<in> set cols.
        \<not> is_constraint_name name \<longrightarrow>
          (\<exists>ty. base_type_token d = Some ty \<and> ty \<in> set types))"

text \<open>
  Notions for the connection. \<open>on_handle h c\<close>: the call \<open>c\<close> is a statement, fetch,
  commit or rollback on the handle \<open>h\<close>. \<open>uses_handle h w w'\<close>: from \<open>w\<close> to \<open>w'\<close> only
  such calls were made and the handle held is the same. \<open>reliable_connections\<close>: the
  engine never refuses to connect, to switch foreign keys on, or to close.
\<close>

fun on_handle :: "nat \<Rightarrow> call \<Rightarrow> bool" where
  "on_handle h (Connect p) = False"
| "on_handle h (Execute h' q ps) = (h' = h)"
| "on_handle h (Fetchall h') = (h' = h)"
| "on_handle h (Fetchone h') = (h' = h)"
| "on_handle h (Commit h') = (h' = h)"
| "on_handle h (Rollback h') = (h' = h)"
| "on_handle h (Close h') = False"

definition uses_handle :: "nat \<Rightarrow> world \<Rightarrow> world \<Rightarrow> bool" where
  "uses_handle h w w' \<longleftrightarrow>
     conn w' = conn w \<and> (\<exists>mid. trace w' = trace w @ mid \<and> (\<forall>c\<in>set mid. on_handle h c))"

definition reliable_connections :: "engine \<Rightarrow> manager \<Rightarrow> bool" where
  "reliable_connections eng m \<longleftrightarrow>
     (\<forall>tr. eng tr (Connect (db_path m)) \<noteq> Raises) \<and>
     (\<forall>tr h. eng tr (Close h) \<noteq> Raises) \<and>
     (\<forall>tr h. eng tr (Execute h ''PRAGMA foreign_keys = ON;'' []) \<noteq> Raises)"

text \<open>
  Notions for the round trip. \<open>depth_scan d s\<close> reads \<open>s\<close> from paren depth \<open>d\<close>: it
  gives the depth at the end, or \<open>None\<close> if it meets a comma at depth zero.
  \<open>contains_ci s p\<close>: the text \<open>p\<close> occurs in \<open>s\<close>, in any letter case. \<open>rendered\<close> is a
  member as the generator writes it. \<open>table_name_ok\<close>: a non-empty string of word
  characters. \<open>member_ok\<close>: the rendered member ends at depth zero and has no comma at
  depth zero, and it does not contain \<open>);\<close>; a data column has a name without whitespace
  and a definition that is not blank, and does not read as a \<open>FOREIGN KEY\<close> or
  \<open>PRIMARY KEY\<close> clause; a constraint named \<open>PRIMARY KEY\<close> or \<open>FOREIGN KEY\<close> has a
  closing parenthesis, any other constraint has at least two tokens.
  \<open>round_trip_ready\<close>: the table names are distinct and fit, the members fit, and no
  generated index statement contains \<open>CREATE TABLE\<close>. \<open>same_data_columns\<close>: two tables
  have the same name and the same set of data columns.
\<close>

fun depth_scan :: "int \<Rightarrow> string \<Rightarrow> int option" where
  "depth_scan d [] = Some d"
| "depth_scan d (c # cs) =
     (if c = CHR '','' \<and> d = 0 then None
      else depth_scan (d + paren_depth [c]) cs)"

fun contains_ci :: "string \<Rightarrow> string \<Rightarrow> bool" where
  "contains_ci [] p = ci_startswith [] p"
| "contains_ci (c # cs) p = (ci_startswith (c # cs) p \<or> contains_ci cs p)"

definition rendered :: "string \<Rightarrow> string \<Rightarrow> string" where
  "rendered name d = name @ '' '' @ d"

definition table_name_ok :: "string \<Rightarrow> bool" where
  "table_name_ok t \<longleftrightarrow> t \<noteq> [] \<and> (\<forall>c\<in>set t. is_word c)"

definition member_ok :: "string \<Rightarrow> string \<Rightarrow> bool" where
  "member_ok name d \<longleftrightarrow>
     depth_scan 0 (rendered name d) = Some 0 \<and> find_close (rendered name d) = None \<and>
     (if is_constraint_name name
      then (if startswith name ''PRIMARY KEY'' \<or> startswith name ''FOREIGN KEY''
            then CHR '')'' \<in> set (rendered name d)
            else length (split_ws1 (strip (rendered name d))) = 2)
      else name \<noteq> [] \<and> (\<forall>c\<in>set name. \<not> is_space c) \<and> strip d \<noteq> [] \<and>
           \<not> startswith (upper (strip (rendered name d))) ''FOREIGN KEY'' \<and>
           \<not> startswith (upper (strip (rendered name d))) ''PRIMARY KEY'')"

definition round_trip_ready :: "schema \<Rightarrow> string list option \<Rightarrow> bool" where
  "round_trip_ready schema idxs \<longleftrightarrow>
     distinct (map fst schema) \<and>
     (\<forall>(t, cols)\<in>set schema.
        table_name_ok t \<and> (\<forall>(name, d)\<in>set cols. member_ok name d) \<and>
        (\<forall>g\<in>set (table_indexes idxs t cols). \<not> contains_ci g ''CREATE TABLE''))"

definition same_data_columns :: "string \<times> table_def \<Rightarrow> string \<times> table_def \<Rightarrow> bool" where
  "same_data_columns a b \<longleftrightarrow>
     fst b = fst a \<and> set (fields_for_dataclass (snd b)) = set (fields_for_dataclass (snd a))"

text \<open>Auxiliary notions of the round-trip proof: the separator between rendered
  members, the parser's choice between its two member parsers, the members in the order
  the generator writes them, and the two kinds of text that \<open>_split_statements\<close> meets.\<close>

definition member_sep :: string where
  "member_sep = '',\<newline>    ''"

definition parse_member :: "string \<Rightarrow> error + (string \<times> string)" where
  "parse_member col =
     (if startswith (upper col) ''FOREIGN KEY'' \<or> startswith (upper col) ''PRIMARY KEY''
      then parse_constraint col else parse_column col)"

definition ordered_members :: "table_def \<Rightarrow> table_def" where
  "ordered_members cols =
     filter (\<lambda>m. \<not> is_constraint_name (fst m)) cols @ filter (\<lambda>m. is_constraint_name (fst m)) cols"

definition is_stmt :: "string \<Rightarrow> bool" where
  "is_stmt s \<longleftrightarrow> (\<exists>mid. s = ''CREATE TABLE'' @ mid @ '');'' \<and> find_close mid = None)"

definition is_gap :: "string \<Rightarrow> bool" where
  "is_gap s \<longleftrightarrow> s \<noteq> [] \<and> \<not> contains_ci s ''CREATE TABLE'' \<and>
     upper_char (last s) \<notin> set (upper ''CREATE TABLE'')"

section \<open>Environments for concrete runs\<close>

text \<open>
  \<open>strict_engine\<close> answers like a database whose table \<open>t\<close> has a column
  \<open>name TEXT NOT NULL\<close>: it raises on the incomplete statement \<open>DELETE FROM t WHERE\<close> and
  on a statement whose \<open>name\<close> parameter is \<open>None\<close>, and accepts every other call.
\<close>

definition plain_cursor :: cursor where
  "plain_cursor = \<lparr>lastrowid = Some 1, rowcount = 1, fetched = []\<rparr>"

definition strict_engine :: engine where
  "strict_engine tr c =
     (case c of
        Execute h q ps \<Rightarrow>
          if q = ''DELETE FROM t WHERE '' \<or> map_of ps ''name'' = Some PyNone then Raises
          else Returns plain_cursor
      | _ \<Rightarrow> Returns plain_cursor)"

definition fresh_world :: world where
  "fresh_world = \<lparr>trace = [], conn = None\<rparr>"

definition plain_manager :: manager where
  "plain_manager = \<lparr>db_path = ''db'', has_foreign_keys = False\<rparr>"

definition empty_factory :: factory where
  "empty_factory = \<lparr>instances = [], allocated = 0\<rparr>"

text \<open>A schema for concrete runs: two tables, a composite primary key and a foreign
  key.\<close>

definition shop_schema :: schema where
  "shop_schema =
     [(''customers'',
        [(''id'', ''INTEGER PRIMARY KEY AUTOINCREMENT''), (''name'', ''TEXT NOT NULL'')]),
      (''orders'',
        [(''id'', ''INTEGER''), (''customer_id'', ''INTEGER''),
         (''total'', ''DECIMAL(10, 2) NOT NULL''),
         (''PRIMARY KEY'', ''(id, customer_id)''),
         (''FOREIGN KEY(customer_id)'', ''REFERENCES customers(id) ON DELETE CASCADE'')])]"

section \<open>Member splitting\<close>

lemma pieces_nonempty: "top_level_pieces d s \<noteq> []"
  by (induction s arbitrary: d) (auto split: list.splits)

lemma paren_depth_Cons: "paren_depth (c # cs) = paren_depth [c] + paren_depth cs"
  by (simp add: paren_depth_def)

lemma paren_depth_append: "paren_depth (xs @ ys) = paren_depth xs + paren_depth ys"
  by (induction xs) (auto simp: paren_depth_def)

lemma paren_depth_Nil: "paren_depth [] = 0"
  by (simp add: paren_depth_def)

lemma pieces_sep: "top_level_pieces 0 (CHR '','' # cs) = [] # top_level_pieces 0 cs"
  by simp

lemma pieces_other:
  "\<not> (c = CHR '','' \<and> d = 0) \<Longrightarrow> top_level_pieces (d + paren_depth [c]) cs = p # ps \<Longrightarrow>
     top_level_pieces d (c # cs) = (c # p) # ps"
  by auto

lemma split_loop_sep:
  "split_loop (CHR '','' # cs) columns 0 cur = split_loop cs (columns @ [strip cur]) 0 []"
  by simp

lemma split_loop_other:
  "\<not> (c = CHR '','' \<and> d = 0) \<Longrightarrow>
     split_loop (c # cs) columns d cur = split_loop cs columns (d + paren_depth [c]) (cur @ [c])"
  by (auto simp: paren_depth_def)

lemma join_pieces: "join '','' (top_level_pieces d s) = s"
proof (induction s arbitrary: d)
  case Nil
  show ?case by simp
next
  case (Cons c cs)
  show ?case
  proof (cases "c = CHR '','' \<and> d = 0")
    case True
    obtain p ps where "top_level_pieces d cs = p # ps"
      using pieces_nonempty [of d cs] by (cases "top_level_pieces d cs") auto
    with True Cons.IH [of d] show ?thesis by (simp del: top_level_pieces.simps add: pieces_sep)
  next
    case False
    obtain p ps where e: "top_level_pieces (d + paren_depth [c]) cs = p # ps"
      using pieces_nonempty [of "d + paren_depth [c]" cs]
      by (cases "top_level_pieces (d + paren_depth [c]) cs") auto
    with Cons.IH [of "d + paren_depth [c]"] have "join '','' (p # ps) = cs" by simp
    then have "join '','' ((c # p) # ps) = c # cs" by (cases ps) auto
    with pieces_other [OF False e] show ?thesis by simp
  qed
qed

lemma split_loop_pieces:
  "split_loop s columns d cur =
     (case top_level_pieces d s of
        p # ps \<Rightarrow> (columns @ map strip (butlast ((cur @ p) # ps)), last ((cur @ p) # ps))
      | [] \<Rightarrow> (columns, cur))"
proof (induction s arbitrary: columns d cur)
  case Nil
  show ?case by simp
next
  case (Cons c cs)
  show ?case
  proof (cases "c = CHR '','' \<and> d = 0")
    case True
    obtain p ps where e: "top_level_pieces d cs = p # ps"
      using pieces_nonempty [of d cs] by (cases "top_level_pieces d cs") auto
    from True e Cons.IH [of "columns @ [strip cur]" d "[]"] show ?thesis
      by (simp del: top_level_pieces.simps split_loop.simps add: pieces_sep split_loop_sep)
  next
    case False
    let ?d = "d + paren_depth [c]"
    obtain p ps where e: "top_level_pieces ?d cs = p # ps"
      using pieces_nonempty [of ?d cs] by (cases "top_level_pieces ?d cs") auto
    from e Cons.IH [of columns ?d "cur @ [c]"] show ?thesis
      by (simp del: top_level_pieces.simps split_loop.simps
            add: pieces_other [OF False e] split_loop_other [OF False])
  qed
qed

lemma nested_commas_Cons:
  "\<not> (c = CHR '','' \<and> d = 0) \<Longrightarrow> nested_commas (d + paren_depth [c]) p \<Longrightarrow> nested_commas d (c # p)"
  unfolding nested_commas_def
proof (intro allI impI)
  fix i
  assume sep: "\<not> (c = CHR '','' \<and> d = 0)"
    and ih: "\<forall>i<length p. p ! i = CHR '','' \<longrightarrow> d + paren_depth [c] + paren_depth (take i p) \<noteq> 0"
    and i: "i < length (c # p)" and comma: "(c # p) ! i = CHR '',''"
  show "d + paren_depth (take i (c # p)) \<noteq> 0"
  proof (cases i)
    case 0
    with sep comma show ?thesis by (simp add: paren_depth_Nil)
  next
    case (Suc j)
    with i comma ih have "d + paren_depth [c] + paren_depth (take j p) \<noteq> 0" by simp
    with Suc show ?thesis by (simp add: paren_depth_Cons [of c "take j p"])
  qed
qed

lemma pieces_props:
  "top_level_pieces d s = p # rest \<Longrightarrow>
     nested_commas d p \<and> (\<forall>r\<in>set rest. nested_commas 0 r) \<and>
     (rest \<noteq> [] \<longrightarrow> d + paren_depth p = 0) \<and> (\<forall>r\<in>set (butlast rest). paren_depth r = 0)"
proof (induction s arbitrary: d p rest)
  case Nil
  then show ?case by (auto simp: nested_commas_def)
next
  case (Cons c cs)
  show ?case
  proof (cases "c = CHR '','' \<and> d = 0")
    case True
    obtain q qs where e: "top_level_pieces 0 cs = q # qs"
      using pieces_nonempty [of 0 cs] by (cases "top_level_pieces 0 cs") auto
    from True Cons.prems e have p: "p = []" and rest: "rest = q # qs"
      by (simp_all del: top_level_pieces.simps add: pieces_sep)
    from Cons.IH [OF e] True p rest show ?thesis
      by (auto simp: nested_commas_def paren_depth_Nil)
  next
    case False
    let ?d = "d + paren_depth [c]"
    obtain q qs where e: "top_level_pieces ?d cs = q # qs"
      using pieces_nonempty [of ?d cs] by (cases "top_level_pieces ?d cs") auto
    from Cons.prems pieces_other [OF False e] have p: "p = c # q" and rest: "rest = qs"
      by simp_all
    from Cons.IH [OF e] have ih: "nested_commas ?d q" "\<forall>r\<in>set qs. nested_commas 0 r"
      "qs \<noteq> [] \<longrightarrow> ?d + paren_depth q = 0" "\<forall>r\<in>set (butlast qs). paren_depth r = 0"
      by simp_all
    from nested_commas_Cons [OF False ih(1)] ih(2-4) p rest show ?thesis
      by (simp add: paren_depth_Cons [of c q] add.assoc)
  qed
qed

lemma paren_depth_spaces: "\<forall>c\<in>set s. is_space c \<Longrightarrow> paren_depth s = 0"
  by (induction s) (auto simp: paren_depth_def is_space_def)

lemma strip_as_slice: "\<exists>k n. strip r = take n (drop k r) \<and> (\<forall>c\<in>set (take k r). is_space c)"
proof -
  let ?k = "length (takeWhile is_space r)"
  have a: "dropWhile is_space r = drop ?k r" by (rule dropWhile_eq_drop)
  have "\<exists>n. rev (dropWhile is_space (rev xs)) = take n xs" for xs :: string
  proof -
    have "rev (dropWhile is_space (rev xs)) = rev (drop (length (takeWhile is_space (rev xs))) (rev xs))"
      by (simp add: dropWhile_eq_drop)
    also have "\<dots> = take (length xs - length (takeWhile is_space (rev xs))) xs"
      by (simp add: rev_drop)
    finally show ?thesis by blast
  qed
  then obtain n where "strip r = take n (drop ?k r)" unfolding strip_def a by blast
  moreover have "\<forall>c\<in>set (take ?k r). is_space c"
    by (metis set_takeWhileD takeWhile_eq_take)
  ultimately show ?thesis by blast
qed

lemma strip_nested: "nested_commas 0 r \<Longrightarrow> nested_commas 0 (strip r)"
proof -
  assume nr: "nested_commas 0 r"
  obtain k n where s: "strip r = take n (drop k r)" and sp: "\<forall>c\<in>set (take k r). is_space c"
    using strip_as_slice by blast
  show ?thesis
    unfolding nested_commas_def
  proof (intro allI impI)
    fix i
    assume i: "i < length (strip r)" and c: "strip r ! i = CHR '',''"
    from i s have i': "i < n" "k + i < length r" by auto
    with c s have "r ! (k + i) = CHR '',''" by simp
    with nr i' have "paren_depth (take (k + i) r) \<noteq> 0" by (simp add: nested_commas_def)
    moreover have "take (k + i) r = take k r @ take i (drop k r)" by (simp add: take_add)
    moreover have "take i (strip r) = take i (drop k r)" using s i' by (simp add: min_def)
    ultimately show "0 + paren_depth (take i (strip r)) \<noteq> 0"
      using paren_depth_spaces [OF sp] by (simp add: paren_depth_append)
  qed
qed

text \<open>
  Claim C4. For every body string, \<open>_split_columns\<close> cuts at the commas of paren depth
  zero and nowhere else. \<open>top_level_pieces 0 s\<close> are the pieces of \<open>s\<close>: joined by commas
  they give \<open>s\<close> back, every piece but the last returns to depth zero (so each cut is a
  comma at depth zero), and every comma left inside a piece is at a depth other than
  zero. \<open>split_columns s\<close> is these pieces stripped, without a blank last piece; every
  comma inside a returned member is nested in parentheses.
\<close>

theorem split_columns_top_level_commas:
  "join '','' (top_level_pieces 0 s) = s \<and>
   (\<forall>r\<in>set (butlast (top_level_pieces 0 s)). paren_depth r = 0) \<and>
   (\<forall>r\<in>set (top_level_pieces 0 s). nested_commas 0 r) \<and>
   split_columns s =
     map strip (butlast (top_level_pieces 0 s)) @
     (if strip (last (top_level_pieces 0 s)) = [] then []
      else [strip (last (top_level_pieces 0 s))]) \<and>
   (\<forall>m\<in>set (split_columns s). nested_commas 0 m)"
proof -
  obtain p ps where e: "top_level_pieces 0 s = p # ps"
    using pieces_nonempty [of 0 s] by (cases "top_level_pieces 0 s") auto
  from pieces_props [OF e] have nest: "\<forall>r\<in>set (p # ps). nested_commas 0 r"
    and bal: "\<forall>r\<in>set (butlast (p # ps)). paren_depth r = 0"
    by auto
  have sc: "split_columns s =
     map strip (butlast (p # ps)) @ (if strip (last (p # ps)) = [] then [] else [strip (last (p # ps))])"
    by (simp add: split_columns_def split_loop_pieces [of s "[]" 0 "[]"] e)
  have "\<forall>m\<in>set (split_columns s). nested_commas 0 m"
  proof
    fix m assume "m \<in> set (split_columns s)"
    with sc have "m \<in> strip ` set (butlast (p # ps)) \<or> m = strip (last (p # ps))"
      by (auto split: if_splits)
    then obtain r where "r \<in> set (p # ps)" "m = strip r"
      using in_set_butlastD [of _ "p # ps"] last_in_set [of "p # ps"] by blast
    with nest show "nested_commas 0 m" using strip_nested by blast
  qed
  with nest bal sc join_pieces [of 0 s] show ?thesis unfolding e by simp
qed

theorem split_columns_top_level_commas_witness:
  "split_columns ''rating INTEGER CHECK(rating >= 1 AND rating <= 5), price DECIMAL(10, 2) NOT NULL''
     = [''rating INTEGER CHECK(rating >= 1 AND rating <= 5)'', ''price DECIMAL(10, 2) NOT NULL''] \<and>
   top_level_pieces 0 ''rating INTEGER CHECK(rating >= 1 AND rating <= 5), price DECIMAL(10, 2) NOT NULL''
     = [''rating INTEGER CHECK(rating >= 1 AND rating <= 5)'', '' price DECIMAL(10, 2) NOT NULL''] \<and>
   nested_commas 0 ''price DECIMAL(10, 2) NOT NULL''"
  using split_columns_top_level_commas
    [of "''rating INTEGER CHECK(rating >= 1 AND rating <= 5), price DECIMAL(10, 2) NOT NULL''"]
  by (simp add: paren_depth_def strip_def is_space_def)

section \<open>The insertion statement\<close>

lemma saved_fields_filter:
  "saved_fields d = map fst (filter (\<lambda>(k, v). v \<noteq> PyNone \<or> k \<noteq> ''id'') d)"
  unfolding saved_fields_def by (induction d) auto

text \<open>
  Claim C6. For every record, the statement that \<open>save_single\<close> builds and executes
  (with the record's whole mapping as parameters) is the \<open>INSERT OR REPLACE\<close> over the
  fields whose value is not null or whose name is not \<open>id\<close>, in field order: \<open>id\<close> is
  left out exactly when the record has no \<open>id\<close> field or its value is null, and every
  other field is included whatever its value.
\<close>

theorem insertion_query_fields:
  "dc_to_insertion_query t d = insert_or_replace t (saved_fields d) \<and>
   save_single eng m t d w =
     (case execute eng m (insert_or_replace t (saved_fields d)) d False True False False w of
        (Inl e, w1) \<Rightarrow> ((Some False, d), w1)
      | (Inr res, w1) \<Rightarrow> (id_check res d, w1)) \<and>
   (distinct (map fst d) \<longrightarrow>
      (''id'' \<notin> set (saved_fields d) \<longleftrightarrow>
         map_of d ''id'' = None \<or> map_of d ''id'' = Some PyNone)) \<and>
   (\<forall>k. k \<noteq> ''id'' \<longrightarrow> (k \<in> set (saved_fields d) \<longleftrightarrow> k \<in> fst ` set d))"
proof -
  have q: "dc_to_insertion_query t d = insert_or_replace t (saved_fields d)"
    by (simp add: dc_to_insertion_query_def insert_or_replace_def saved_fields_filter Let_def)
  have mem: "k \<in> set (saved_fields d) \<longleftrightarrow>
      (\<exists>v. (k, v) \<in> set d \<and> (v \<noteq> PyNone \<or> k \<noteq> ''id''))" for k
    unfolding saved_fields_filter by force
  have idk: "''id'' \<notin> set (saved_fields d) \<longleftrightarrow>
      map_of d ''id'' = None \<or> map_of d ''id'' = Some PyNone"
    if dist: "distinct (map fst d)"
  proof -
    have "(\<exists>v. (''id'', v) \<in> set d \<and> v \<noteq> PyNone) \<longleftrightarrow>
        (\<exists>v. map_of d ''id'' = Some v \<and> v \<noteq> PyNone)"
      using dist by (auto dest: map_of_SomeD)
    then show ?thesis unfolding mem by (cases "map_of d ''id''") auto
  qed
  have other: "k \<noteq> ''id'' \<Longrightarrow> (k \<in> set (saved_fields d) \<longleftrightarrow> k \<in> fst ` set d)" for k
    unfolding mem by force
  have s: "save_single eng m t d w =
     (case execute eng m (insert_or_replace t (saved_fields d)) d False True False False w of
        (Inl e, w1) \<Rightarrow> ((Some False, d), w1)
      | (Inr res, w1) \<Rightarrow> (id_check res d, w1))"
    by (simp only: save_single_def q)
  from q s idk other show ?thesis by blast
qed

theorem insertion_query_fields_witness:
  "dc_to_insertion_query ''t'' [(''id'', PyNone), (''name'', PyNone), (''x'', PyInt 1)]
     = ''INSERT OR REPLACE INTO t (name, x) VALUES (:name, :x)'' \<and>
   saved_fields [(''id'', PyNone), (''name'', PyNone), (''x'', PyInt 1)] = [''name'', ''x''] \<and>
   dc_to_insertion_query ''t'' [(''id'', PyInt 7), (''name'', PyNone)]
     = ''INSERT OR REPLACE INTO t (id, name) VALUES (:id, :name)''"
proof -
  have a: "dc_to_insertion_query ''t'' [(''id'', PyNone), (''name'', PyNone), (''x'', PyInt 1)] =
      insert_or_replace ''t'' (saved_fields [(''id'', PyNone), (''name'', PyNone), (''x'', PyInt 1)])"
    using insertion_query_fields [of "''t''" "[(''id'', PyNone), (''name'', PyNone), (''x'', PyInt 1)]"]
    by blast
  have b: "dc_to_insertion_query ''t'' [(''id'', PyInt 7), (''name'', PyNone)] =
      insert_or_replace ''t'' (saved_fields [(''id'', PyInt 7), (''name'', PyNone)])"
    using insertion_query_fields [of "''t''" "[(''id'', PyInt 7), (''name'', PyNone)]"]
    by blast
  show ?thesis unfolding a b by (simp add: insert_or_replace_def saved_fields_def)
qed

section \<open>The repository cache\<close>

lemma map_of_dict_set: "map_of (dict_set k v d) k' = (if k' = k then Some v else map_of d k')"
  by (induction d) auto

lemma create_repository_keeps:
  "map_of (instances f) t = Some r \<Longrightarrow>
   map_of (instances (snd (create_repository accepts t' sf fl f))) t = Some r"
  by (auto simp: create_repository_def map_of_dict_set Let_def split: option.splits sum.splits)

lemma create_all_keeps:
  "map_of (instances f) t = Some r \<Longrightarrow> map_of (instances (create_all accepts reqs f)) t = Some r"
proof (induction reqs arbitrary: f)
  case Nil
  then show ?case by simp
next
  case (Cons req reqs)
  obtain t' sf fl where req: "req = (t', sf, fl)" by (cases req) auto
  from Cons.prems have "map_of (instances (snd (create_repository accepts t' sf fl f))) t = Some r"
    by (rule create_repository_keeps)
  from Cons.IH [OF this] req show ?case by simp
qed

lemma create_repository_stores:
  "create_repository accepts t sf fl f = (Inr r, f1) \<Longrightarrow> map_of (instances f1) t = Some r"
  by (auto simp: create_repository_def map_of_dict_set Let_def split: option.splits sum.splits)

text \<open>
  Claim C8. Once \<open>create_repository\<close> has returned a repository \<open>r\<close> for a table name,
  every later request for that name, after any run of further requests and whatever
  schema fields and field list it supplies, returns the same object \<open>r\<close> and leaves the
  cache as it is. The factory has no operation that removes an entry.
\<close>

theorem create_repository_idempotent:
  assumes "create_repository accepts t sf fl f = (Inr r, f1)"
  shows "create_repository accepts t sf' fl' (create_all accepts reqs f1)
           = (Inr r, create_all accepts reqs f1)"
proof -
  from assms have "map_of (instances f1) t = Some r" by (rule create_repository_stores)
  then have "map_of (instances (create_all accepts reqs f1)) t = Some r" by (rule create_all_keeps)
  then show ?thesis by (simp add: create_repository_def)
qed

theorem create_repository_idempotent_witness:
  "fst (create_repository (\<lambda>_. True) ''users'' [(''email'', ''TEXT'')] [''email'']
     (create_all (\<lambda>_. True) [(''orders'', [(''id'', ''INTEGER'')], [''id''])]
        (snd (create_repository (\<lambda>_. True) ''users''
                [(''id'', ''INTEGER''), (''name'', ''TEXT'')] [''id'', ''name''] empty_factory))))
   = Inr \<lparr>repo_id = 0, repo_table = ''users'',
           repo_schema_fields = [(''id'', ''INTEGER''), (''name'', ''TEXT'')],
           RepoData = [(''id'', HInt, PyNone), (''name'', HStr, PyNone)]\<rparr>"
proof -
  have first: "create_repository (\<lambda>_. True) ''users''
      [(''id'', ''INTEGER''), (''name'', ''TEXT'')] [''id'', ''name''] empty_factory
    = (Inr \<lparr>repo_id = 0, repo_table = ''users'',
            repo_schema_fields = [(''id'', ''INTEGER''), (''name'', ''TEXT'')],
            RepoData = [(''id'', HInt, PyNone), (''name'', HStr, PyNone)]\<rparr>,
       snd (create_repository (\<lambda>_. True) ''users''
              [(''id'', ''INTEGER''), (''name'', ''TEXT'')] [''id'', ''name''] empty_factory))"
    by (simp add: create_repository_def empty_factory_def RepoDataClass_def prepared_fields_def
          field_type_def type_map_def upper_def upper_char_def Let_def)
  have "create_repository (\<lambda>_. True) ''users'' [(''email'', ''TEXT'')] [''email'']
     (create_all (\<lambda>_. True) [(''orders'', [(''id'', ''INTEGER'')], [''id''])]
        (snd (create_repository (\<lambda>_. True) ''users''
                [(''id'', ''INTEGER''), (''name'', ''TEXT'')] [''id'', ''name''] empty_factory)))
    = (Inr \<lparr>repo_id = 0, repo_table = ''users'',
            repo_schema_fields = [(''id'', ''INTEGER''), (''name'', ''TEXT'')],
            RepoData = [(''id'', HInt, PyNone), (''name'', HStr, PyNone)]\<rparr>,
       create_all (\<lambda>_. True) [(''orders'', [(''id'', ''INTEGER'')], [''id''])]
        (snd (create_repository (\<lambda>_. True) ''users''
                [(''id'', ''INTEGER''), (''name'', ''TEXT'')] [''id'', ''name''] empty_factory)))"
    by (rule create_repository_idempotent [OF first])
  then show ?thesis by (simp only: fst_conv)
qed

section \<open>The record type\<close>

text \<open>
  Claim C3, at the table \<open>people(id INTEGER PRIMARY KEY AUTOINCREMENT, age INTEGER, photo
  BLOB)\<close>: the generated record type has one field per data column, but \<open>field_type\<close> is
  given the field's name, not its declared type, so \<open>age\<close> and \<open>photo\<close> are typed as
  strings.
\<close>

theorem record_type_from_field_names:
  "fst (create_repository (\<lambda>_. True) ''people''
          [(''id'', ''INTEGER PRIMARY KEY AUTOINCREMENT''), (''age'', ''INTEGER''),
           (''photo'', ''BLOB'')]
          [''id'', ''age'', ''photo''] empty_factory)
   = Inr \<lparr>repo_id = 0, repo_table = ''people'',
           repo_schema_fields =
             [(''id'', ''INTEGER PRIMARY KEY AUTOINCREMENT''), (''age'', ''INTEGER''),
              (''photo'', ''BLOB'')],
           RepoData = [(''id'', HInt, PyNone), (''age'', HStr, PyNone), (''photo'', HStr, PyNone)]\<rparr>"
  by (simp add: create_repository_def empty_factory_def RepoDataClass_def prepared_fields_def
        field_type_def type_map_def upper_def upper_char_def Let_def)

section \<open>Statements sent to the engine\<close>

text \<open>
  Claim C1, at \<open>delete()\<close> with no filter: for every table, \<open>query_conditions\<close> raises
  nothing and returns a statement with an empty condition; on the table \<open>t\<close>, \<open>delete\<close>
  opens a transaction, sends that statement and returns \<open>False\<close> when the engine rejects
  it.
\<close>

theorem delete_without_filters_runs:
  "query_conditions table_name False False True [] = Inr (''DELETE FROM '' @ table_name @ '' WHERE '') \<and>
   delete strict_engine plain_manager ''t'' [] fresh_world =
     (Inr False,
      \<lparr>trace = [Connect ''db'', Execute 0 ''BEGIN TRANSACTION;'' [],
                Execute 0 ''DELETE FROM t WHERE '' [], Rollback 0, Close 0],
       conn = None\<rparr>)"
  by (simp add: query_conditions_def delete_def execute_def aenter_def aexit_def execute_body_def
        run_query_def on_exception_def issue_def strict_engine_def plain_manager_def
        fresh_world_def plain_cursor_def)

text \<open>
  Claim C2, at a batch of three records whose second one the engine rejects: the second
  record's own transaction is rolled back, the first stays committed, the third is still
  inserted and committed, and \<open>save_many\<close> returns \<open>True\<close>.
\<close>

theorem save_many_continues_after_failure:
  "save_many strict_engine plain_manager ''t''
     [ [(''id'', PyNone), (''name'', PyStr ''a'')],
      [(''id'', PyNone), (''name'', PyNone)],
      [(''id'', PyInt 5), (''name'', PyStr ''c'')]] fresh_world =
   ((True,
     [ [(''id'', PyInt 1), (''name'', PyStr ''a'')],
      [(''id'', PyNone), (''name'', PyNone)],
      [(''id'', PyInt 5), (''name'', PyStr ''c'')]]),
    \<lparr>trace =
       [Connect ''db'', Execute 0 ''BEGIN TRANSACTION;'' [],
        Execute 0 ''INSERT OR REPLACE INTO t (name) VALUES (:name)''
          [(''id'', PyNone), (''name'', PyStr ''a'')],
        Commit 0, Close 0,
        Connect ''db'', Execute 1 ''BEGIN TRANSACTION;'' [],
        Execute 1 ''INSERT OR REPLACE INTO t (name) VALUES (:name)''
          [(''id'', PyNone), (''name'', PyNone)],
        Rollback 1, Close 1,
        Connect ''db'', Execute 2 ''BEGIN TRANSACTION;'' [],
        Execute 2 ''INSERT OR REPLACE INTO t (id, name) VALUES (:id, :name)''
          [(''id'', PyInt 5), (''name'', PyStr ''c'')],
        Commit 2, Close 2],
     conn = None\<rparr>)"
  by (simp add: save_many_def dc_to_insertion_query_def id_check_def rowid_val_def
        execute_def aenter_def aexit_def execute_body_def
        run_query_def on_exception_def issue_def strict_engine_def plain_manager_def
        fresh_world_def plain_cursor_def)

section \<open>The validator\<close>

lemma is_constraint_name_alt:
  "(startswith n ''PRIMARY KEY'' \<or> startswith n ''FOREIGN KEY'' \<or> startswith n ''CHECK'' \<or>
    startswith n ''UNIQUE'') \<longleftrightarrow> is_constraint_name n"
  by (auto simp: is_constraint_name_def)

lemma validate_columns_step:
  "validate_columns types table ((name, d) # cols) =
     (if \<not> is_constraint_name name \<and> split_ws d = [] then Inl IndexError
      else (case checked_type name d of
              None \<Rightarrow> validate_columns types table cols
            | Some ty \<Rightarrow> if ty \<in> set types then validate_columns types table cols
                         else Inl (invalid_sql_type ty table name)))"
  by (simp only: validate_columns.simps is_constraint_name_alt checked_type_def keyword_tokens_def)
     (auto split: list.splits)

lemma validate_columns_mismatches:
  "\<forall>(name, d) \<in> set cols. \<not> is_constraint_name name \<longrightarrow> split_ws d \<noteq> [] \<Longrightarrow>
   validate_columns types table cols =
     (case table_mismatches types table cols of
        [] \<Rightarrow> Inr ()
      | (t, n, ty) # _ \<Rightarrow> Inl (invalid_sql_type ty t n))"
proof (induction cols)
  case Nil
  show ?case by (simp add: table_mismatches_def)
next
  case (Cons m cols)
  obtain name d where m: "m = (name, d)" by (cases m) auto
  from Cons.prems have rest: "\<forall>(name, d) \<in> set cols. \<not> is_constraint_name name \<longrightarrow> split_ws d \<noteq> []"
    and here: "\<not> (\<not> is_constraint_name name \<and> split_ws d = [])"
    by (auto simp: m)
  have tm: "table_mismatches types table ((name, d) # cols) =
      (case checked_type name d of None \<Rightarrow> [] | Some ty \<Rightarrow> if ty \<in> set types then [] else [(table, name, ty)])
      @ table_mismatches types table cols"
    by (auto simp: table_mismatches_def split: option.splits)
  show ?case
    unfolding m validate_columns_step tm using here Cons.IH [OF rest]
    by (auto simp del: validate_columns.simps split: option.splits)
qed

lemma validate_tables_mismatches:
  "all_typed schema \<Longrightarrow>
   validate_tables types schema =
     (case mismatches types schema of
        [] \<Rightarrow> Inr ()
      | (t, n, ty) # _ \<Rightarrow> Inl (invalid_sql_type ty t n))"
proof (induction schema)
  case Nil
  show ?case by (simp add: mismatches_def)
next
  case (Cons tc schema)
  obtain table cols where tc: "tc = (table, cols)" by (cases tc) auto
  from Cons.prems have rest: "all_typed schema"
    and here: "\<forall>(name, d) \<in> set cols. \<not> is_constraint_name name \<longrightarrow> split_ws d \<noteq> []"
    by (auto simp: all_typed_def tc)
  have mm: "mismatches types ((table, cols) # schema) =
      table_mismatches types table cols @ mismatches types schema"
    by (simp add: mismatches_def)
  show ?case
    unfolding tc mm using validate_columns_mismatches [OF here, of types table] Cons.IH [OF rest]
    by (cases "table_mismatches types table cols") (auto split: sum.splits)
qed

lemma validate_mismatches:
  "all_typed schema \<Longrightarrow>
   validate schema sql_types =
     (case mismatches (required_sql_types sql_types) schema of
        [] \<Rightarrow> Inr True
      | (t, n, ty) # _ \<Rightarrow> Inl (invalid_sql_type ty t n))"
  by (simp add: validate_def validate_tables_mismatches split: list.splits)

text \<open>
  Claim C5 as it is written fails: a data column declared \<open>UNIQUE\<close> has a base type
  token outside the recognized set and is accepted all the same, and a data column with
  an empty definition raises \<open>IndexError\<close>, which names no table, column or type.
\<close>

theorem validate_keyword_token_counterexample:
  "validate [(''t'', [(''x'', ''UNIQUE'')])] None = Inr True \<and>
   \<not> every_type_recognized (required_sql_types None) [(''t'', [(''x'', ''UNIQUE'')])] \<and>
   validate [(''t'', [(''x'', [])])] None = Inl IndexError"
  by (simp add: validate_def every_type_recognized_def base_type_token_def
        is_constraint_name_def startswith_def split_ws_def is_space_def upper_def upper_char_def
        required_sql_types_def default_sql_types_def)

text \<open>
  Claim C5, amended. For every schema whose data columns all have a token, the first
  one without the code points 181, 223 and 255, and every recognized set (the seven
  default types when none, or an empty one, is supplied): \<open>validate\<close> takes the first
  token of each data column's definition, uppercases it, skips the column if the token
  is then \<open>PRIMARY\<close>, \<open>FOREIGN\<close>, \<open>CHECK\<close> or \<open>UNIQUE\<close>, and otherwise cuts it at its first
  parenthesis and looks it up in the recognized set. It fails with the error that names
  table, column and type of the first mismatch in iteration order, and returns \<open>True\<close>
  when there is none.
\<close>

theorem validate_fail_fast:
  assumes "all_typed schema" and "tokens_upper_exact schema"
  shows "validate schema sql_types =
     (case mismatches (required_sql_types sql_types) schema of
        [] \<Rightarrow> Inr True
      | (table, column, ty) # _ \<Rightarrow> Inl (invalid_sql_type ty table column))"
  using assms(1) by (rule validate_mismatches)

theorem validate_fail_fast_witness:
  "validate [(''t'', [(''id'', ''INTEGER PRIMARY KEY''), (''x'', ''FOO''), (''y'', ''BAR'')])] None
     = Inl (invalid_sql_type ''FOO'' ''t'' ''x'') \<and>
   validate [(''t'', [(''id'', ''INTEGER PRIMARY KEY''), (''x'', ''DECIMAL(10,2)'')])] None = Inr True \<and>
   validate [(''t'', [(''x'', ''decimal(10,2)'')])] (Some [''INTEGER'']) = Inl (invalid_sql_type ''DECIMAL'' ''t'' ''x'')"
  using validate_fail_fast [of "[(''t'', [(''id'', ''INTEGER PRIMARY KEY''), (''x'', ''FOO''), (''y'', ''BAR'')])]" None]
    validate_fail_fast [of "[(''t'', [(''id'', ''INTEGER PRIMARY KEY''), (''x'', ''DECIMAL(10,2)'')])]" None]
    validate_fail_fast [of "[(''t'', [(''x'', ''decimal(10,2)'')])]" "Some [''INTEGER'']"]
  by (simp add: all_typed_def tokens_upper_exact_def upper_exact_def
        mismatches_def table_mismatches_def checked_type_def
        is_constraint_name_def startswith_def split_ws_def is_space_def upper_def upper_char_def
        keyword_tokens_def required_sql_types_def default_sql_types_def)

text \<open>
  Claim C10, at a data column declared \<open>CHECK(x>0)\<close>. Its base type token is \<open>CHECK\<close>,
  one of the four keywords, so no data column of the schema has a base type token
  outside both the recognized set and the keywords; \<open>validate\<close> raises all the same, with
  the message that \<open>CHECK\<close> is an invalid type. The test of line 77 compares the whole
  uppercased token \<open>CHECK(X>0)\<close> with the keywords, before line 80 cuts the token at its
  parenthesis. The same definition written with a space, \<open>CHECK (x>0)\<close>, is skipped, and
  so is a member whose name is \<open>CHECK(x>0)\<close>: the test on the name beside it is a prefix
  test.
\<close>

theorem validate_keyword_with_suffix_raises:
  "validate [(''t'', [(''x'', ''CHECK(x>0)'')])] None = Inl (invalid_sql_type ''CHECK'' ''t'' ''x'') \<and>
   base_type_token ''CHECK(x>0)'' = Some ''CHECK'' \<and>
   \<not> some_type_outside (required_sql_types None) [(''t'', [(''x'', ''CHECK(x>0)'')])] \<and>
   validate [(''t'', [(''x'', ''CHECK (x>0)'')])] None = Inr True \<and>
   validate [(''t'', [(''CHECK(x>0)'', ''FOO'')])] None = Inr True"
  by (simp add: validate_def some_type_outside_def base_type_token_def
        is_constraint_name_def startswith_def split_ws_def is_space_def upper_def upper_char_def
        keyword_tokens_def required_sql_types_def default_sql_types_def)

section \<open>The connection\<close>

lemma uses_handle_refl: "uses_handle h w w"
  by (simp add: uses_handle_def)

lemma uses_handle_trans: "uses_handle h w w1 \<Longrightarrow> uses_handle h w1 w2 \<Longrightarrow> uses_handle h w w2"
  unfolding uses_handle_def by fastforce

lemma uses_handle_issue: "on_handle h c \<Longrightarrow> issue eng c w = (r, w1) \<Longrightarrow> uses_handle h w w1"
  unfolding uses_handle_def issue_def by auto

lemma on_exception_uses: "on_exception eng h tx w = (r, w1) \<Longrightarrow> uses_handle h w w1"
  unfolding on_exception_def
  by (auto split: if_splits prod.splits reply.splits
        intro: uses_handle_refl uses_handle_issue [of h "Rollback h"])

lemma run_query_uses: "run_query eng h q ps tx cm fa fo w = (r, w1) \<Longrightarrow> uses_handle h w w1"
  unfolding run_query_def
  by (auto split: if_splits prod.splits reply.splits
        intro: uses_handle_trans [OF uses_handle_issue [of h "Execute h q ps"]]
               uses_handle_trans [OF uses_handle_issue [of h "Execute h q ps"]
                 uses_handle_trans [OF uses_handle_issue [of h "Fetchall h"]]]
               uses_handle_trans [OF uses_handle_issue [of h "Execute h q ps"]
                 uses_handle_trans [OF uses_handle_issue [of h "Fetchone h"]]]
               uses_handle_trans [OF uses_handle_issue [of h "Execute h q ps"]
                 uses_handle_trans [OF uses_handle_issue [of h "Commit h"]]]
               on_exception_uses uses_handle_refl uses_handle_issue)

lemma execute_body_uses:
  "execute_body eng h q ps tx cm fa fo w = (r, w1) \<Longrightarrow> uses_handle h w w1"
  unfolding execute_body_def
  by (auto split: if_splits prod.splits reply.splits
        intro: run_query_uses on_exception_uses
          uses_handle_trans [OF uses_handle_issue [of h "Execute h ''BEGIN TRANSACTION;'' []"]])

lemma aenter_opens:
  assumes "conn w = None" and "reliable_connections eng m"
  shows "\<exists>w1 mid. aenter eng m w = (Inr (length (filter is_connect (trace w))), w1) \<and>
           conn w1 = Some (length (filter is_connect (trace w))) \<and>
           trace w1 = trace w @ Connect (db_path m) # mid \<and>
           (\<forall>c\<in>set mid. on_handle (length (filter is_connect (trace w))) c)"
  using assms unfolding aenter_def reliable_connections_def issue_def
  by (auto simp: Let_def split: reply.splits)

lemma aexit_closes:
  assumes "conn w = Some h" and "reliable_connections eng m"
  shows "aexit eng w = (Inr (), w\<lparr>trace := trace w @ [Close h], conn := None\<rparr>)"
  using assms unfolding aexit_def reliable_connections_def issue_def
  by (auto split: reply.splits)

lemma on_handle_not_connect: "on_handle h c \<Longrightarrow> \<not> is_connect c"
  by (cases c) auto

text \<open>
  Claim C9 as it is written fails: two operations in a row run on two handles; the first
  handle is closed when the first operation ends and the second operation connects
  again.
\<close>

theorem connection_reopened_counterexample:
  "trace (snd (delete strict_engine plain_manager ''t'' [(''id'', PyInt 2)]
           (snd (delete strict_engine plain_manager ''t'' [(''id'', PyInt 1)] fresh_world)))) =
     [Connect ''db'', Execute 0 ''BEGIN TRANSACTION;'' [],
      Execute 0 ''DELETE FROM t WHERE id = :id'' [(''id'', PyInt 1)], Commit 0, Close 0,
      Connect ''db'', Execute 1 ''BEGIN TRANSACTION;'' [],
      Execute 1 ''DELETE FROM t WHERE id = :id'' [(''id'', PyInt 2)], Commit 1, Close 1]"
  by (simp add: query_conditions_def delete_def execute_def aenter_def aexit_def execute_body_def
        run_query_def on_exception_def issue_def strict_engine_def plain_manager_def
        fresh_world_def plain_cursor_def)

text \<open>
  Claim C9, amended. The connection manager is shared, the handle is not long-lived:
  on an engine that never refuses to connect, to switch foreign keys on or to close,
  every \<open>_execute\<close> that starts with no handle held opens a new handle, makes all its
  calls on that handle, closes it at scope exit and leaves no handle held; so the next
  operation opens the next handle.
\<close>

theorem execute_opens_and_closes:
  assumes "conn w = None" and "reliable_connections eng m"
  shows "conn (snd (execute eng m q ps tx cm fa fo w)) = None \<and>
         (\<exists>mid. trace (snd (execute eng m q ps tx cm fa fo w)) =
                  trace w @ Connect (db_path m) # mid @
                    [Close (length (filter is_connect (trace w)))] \<and>
                (\<forall>c\<in>set mid. on_handle (length (filter is_connect (trace w))) c)) \<and>
         length (filter is_connect (trace (snd (execute eng m q ps tx cm fa fo w)))) =
           Suc (length (filter is_connect (trace w)))"
proof -
  let ?h = "length (filter is_connect (trace w))"
  from aenter_opens [OF assms] obtain w1 mid1 where
    a: "aenter eng m w = (Inr ?h, w1)" and c1: "conn w1 = Some ?h"
    and t1: "trace w1 = trace w @ Connect (db_path m) # mid1"
    and m1: "\<forall>c\<in>set mid1. on_handle ?h c"
    by blast
  obtain r w2 where b: "execute_body eng ?h q ps tx cm fa fo w1 = (r, w2)"
    by (cases "execute_body eng ?h q ps tx cm fa fo w1") auto
  from execute_body_uses [OF b] obtain mid2 where
    c2: "conn w2 = conn w1" and t2: "trace w2 = trace w1 @ mid2"
    and m2: "\<forall>c\<in>set mid2. on_handle ?h c"
    unfolding uses_handle_def by blast
  from c1 c2 have "conn w2 = Some ?h" by simp
  from aexit_closes [OF this assms(2)]
  have x: "aexit eng w2 = (Inr (), w2\<lparr>trace := trace w2 @ [Close ?h], conn := None\<rparr>)" .
  have e: "execute eng m q ps tx cm fa fo w =
      (r, w2\<lparr>trace := trace w2 @ [Close ?h], conn := None\<rparr>)"
    by (simp add: execute_def a b x)
  have tr: "trace w2 @ [Close ?h] = trace w @ Connect (db_path m) # (mid1 @ mid2) @ [Close ?h]"
    by (simp add: t1 t2)
  have mid: "\<forall>c\<in>set (mid1 @ mid2). on_handle ?h c" using m1 m2 by auto
  then have "filter is_connect (mid1 @ mid2) = []"
    by (auto simp: filter_empty_conv dest: on_handle_not_connect)
  then have "length (filter is_connect (trace w2 @ [Close ?h])) = Suc ?h"
    unfolding tr by simp
  with tr mid show ?thesis unfolding e by (intro conjI exI [of _ "mid1 @ mid2"]) simp_all
qed

theorem execute_opens_and_closes_witness:
  "reliable_connections strict_engine plain_manager \<and>
   conn (snd (execute strict_engine plain_manager ''SELECT 1'' [] False False False False
                fresh_world)) = None \<and>
   length (filter is_connect (trace (snd (execute strict_engine plain_manager ''SELECT 1'' []
                False False False False fresh_world)))) = Suc 0"
proof -
  have h1: "conn fresh_world = None" by (simp add: fresh_world_def)
  have h2: "reliable_connections strict_engine plain_manager"
    by (simp add: reliable_connections_def strict_engine_def)
  from execute_opens_and_closes [OF h1 h2, of "''SELECT 1''" "[]" False False False False] h2
  show ?thesis by (simp add: fresh_world_def)
qed

section \<open>Rendering a schema and parsing it back\<close>

lemma strip_Nil: "strip [] = []"
  by (simp add: strip_def)

lemma strip_id: "s \<noteq> [] \<Longrightarrow> \<not> is_space (hd s) \<Longrightarrow> \<not> is_space (last s) \<Longrightarrow> strip s = s"
proof -
  assume ne: "s \<noteq> []" and h: "\<not> is_space (hd s)" and l: "\<not> is_space (last s)"
  from ne h have a: "dropWhile is_space s = s" by (cases s) auto
  from ne l have "dropWhile is_space (rev s) = rev s" by (cases "rev s") (auto simp: last_rev hd_rev)
  with a show ?thesis by (simp add: strip_def)
qed

lemma strip_leading: "\<forall>c\<in>set a. is_space c \<Longrightarrow> strip (a @ s) = strip s"
  by (simp add: strip_def dropWhile_append)

lemma strip_trailing: "\<forall>c\<in>set a. is_space c \<Longrightarrow> strip (s @ a) = strip s"
proof -
  assume a: "\<forall>c\<in>set a. is_space c"
  have "dropWhile is_space (rev (dropWhile is_space (s @ a))) = dropWhile is_space (rev (dropWhile is_space s))"
  proof (cases "\<forall>c\<in>set s. is_space c")
    case True
    then have 1: "dropWhile is_space s = []" by (simp only: dropWhile_eq_Nil_conv)
    from True a have "\<forall>c\<in>set (s @ a). is_space c" by auto
    then have 2: "dropWhile is_space (s @ a) = []" by (simp only: dropWhile_eq_Nil_conv)
    show ?thesis by (simp only: 1 2)
  next
    case False
    then have "dropWhile is_space (s @ a) = dropWhile is_space s @ a"
      by (auto simp: dropWhile_append)
    with a show ?thesis by (simp add: dropWhile_append)
  qed
  then show ?thesis by (simp add: strip_def)
qed

lemma strip_hd_last:
  "strip s \<noteq> [] \<Longrightarrow> \<not> is_space (hd (strip s)) \<and> \<not> is_space (last (strip s))"
proof -
  assume ne: "strip s \<noteq> []"
  let ?t = "dropWhile is_space (rev (dropWhile is_space s))"
  from ne have t: "?t \<noteq> []" by (simp add: strip_def)
  then have "\<not> is_space (hd ?t)" by (rule hd_dropWhile)
  with t have l: "\<not> is_space (last (strip s))" by (simp add: strip_def last_rev)
  from t have d: "dropWhile is_space s \<noteq> []" by (cases "dropWhile is_space s") auto
  then have h: "\<not> is_space (hd (dropWhile is_space s))" by (rule hd_dropWhile)
  have "\<exists>n. rev ?t = take n (dropWhile is_space s)"
    by (metis dropWhile_eq_drop rev_drop rev_rev_ident)
  then obtain n where n: "strip s = take n (dropWhile is_space s)" by (auto simp: strip_def)
  with ne have "0 < n" by (cases n) auto
  with n d have "hd (strip s) = hd (dropWhile is_space s)" by (cases "dropWhile is_space s"; cases n) auto
  with h l show ?thesis by simp
qed

lemma strip_idem: "strip (strip s) = strip s"
proof (cases "strip s = []")
  case True
  then show ?thesis by (simp add: strip_Nil)
next
  case False
  with strip_hd_last [OF False] show ?thesis by (simp add: strip_id)
qed

lemma space_not_special: "is_space c \<Longrightarrow> c \<noteq> CHR '','' \<and> c \<noteq> CHR ''('' \<and> c \<noteq> CHR '')''"
  by (auto simp: is_space_def)

lemma depth_scan_append:
  "depth_scan d (a @ b) = (case depth_scan d a of None \<Rightarrow> None | Some d' \<Rightarrow> depth_scan d' b)"
  by (induction a arbitrary: d) auto

lemma depth_scan_spaces: "\<forall>c\<in>set ws. is_space c \<Longrightarrow> depth_scan d ws = Some d"
  by (induction ws arbitrary: d) (auto simp: paren_depth_def dest: space_not_special)

lemma depth_scan_split_loop:
  "depth_scan d m = Some d' \<Longrightarrow>
   split_loop (m @ rest) cols d cur = split_loop rest cols d' (cur @ m)"
proof (induction m arbitrary: d cur)
  case Nil
  then show ?case by simp
next
  case (Cons c m)
  from Cons.prems have ns: "\<not> (c = CHR '','' \<and> d = 0)"
    and sc: "depth_scan (d + paren_depth [c]) m = Some d'"
    by (auto split: if_splits)
  have "split_loop ((c # m) @ rest) cols d cur =
      split_loop (m @ rest) cols (d + paren_depth [c]) (cur @ [c])"
    using split_loop_other [OF ns] by simp
  also have "\<dots> = split_loop rest cols d' ((cur @ [c]) @ m)"
    by (rule Cons.IH [OF sc])
  finally show ?case by simp
qed

lemma split_loop_sep_members:
  "split_loop (member_sep @ rest) cols 0 cur = split_loop rest (cols @ [strip cur]) 0 ''\<newline>    ''"
proof -
  have "split_loop (member_sep @ rest) cols 0 cur =
      split_loop (''\<newline>    '' @ rest) (cols @ [strip cur]) 0 []"
    unfolding member_sep_def using split_loop_sep [of "''\<newline>    '' @ rest" cols cur] by simp
  also have "\<dots> = split_loop rest (cols @ [strip cur]) 0 ([] @ ''\<newline>    '')"
    by (rule depth_scan_split_loop) (simp add: paren_depth_def)
  finally show ?thesis by simp
qed

lemma split_loop_members:
  "ms \<noteq> [] \<Longrightarrow> \<forall>m\<in>set ms. depth_scan 0 m = Some 0 \<Longrightarrow> \<forall>c\<in>set cur. is_space c \<Longrightarrow>
   split_loop (join member_sep ms @ ''\<newline>'') cols 0 cur =
     (cols @ map strip (butlast ms), (if tl ms = [] then cur else ''\<newline>    '') @ last ms @ ''\<newline>'')"
proof (induction ms arbitrary: cols cur)
  case Nil
  then show ?case by simp
next
  case (Cons m ms)
  from Cons.prems have m: "depth_scan 0 m = Some 0" by simp
  show ?case
  proof (cases ms)
    case Nil
    have "split_loop (m @ ''\<newline>'') cols 0 cur = split_loop ''\<newline>'' cols 0 (cur @ m)"
      by (rule depth_scan_split_loop [OF m])
    also have "\<dots> = (cols, cur @ m @ ''\<newline>'')" by simp
    finally show ?thesis using Nil by simp
  next
    case (Cons m' ms')
    have ws: "\<forall>c\<in>set ''\<newline>    ''. is_space c" by (simp add: is_space_def)
    from Cons.prems(2) have rest: "\<forall>m\<in>set ms. depth_scan 0 m = Some 0" by simp
    from Cons have ne: "ms \<noteq> []" by simp
    have "split_loop (join member_sep (m # ms) @ ''\<newline>'') cols 0 cur =
        split_loop (m @ member_sep @ join member_sep ms @ ''\<newline>'') cols 0 cur"
      using Cons by simp
    also have "\<dots> = split_loop (member_sep @ join member_sep ms @ ''\<newline>'') cols 0 (cur @ m)"
      by (rule depth_scan_split_loop [OF m])
    also have "\<dots> = split_loop (join member_sep ms @ ''\<newline>'') (cols @ [strip (cur @ m)]) 0 ''\<newline>    ''"
      by (rule split_loop_sep_members)
    also have "\<dots> = ((cols @ [strip (cur @ m)]) @ map strip (butlast ms),
        (if tl ms = [] then ''\<newline>    '' else ''\<newline>    '') @ last ms @ ''\<newline>'')"
      by (rule Cons.IH [OF ne rest ws])
    finally show ?thesis
      using Cons strip_leading [OF Cons.prems(3), of m] by simp
  qed
qed

lemma split_columns_body:
  assumes "\<forall>m\<in>set ms. depth_scan 0 m = Some 0 \<and> strip m \<noteq> []"
  shows "split_columns (''\<newline>    '' @ join member_sep ms @ ''\<newline>'') = map strip ms"
proof -
  have ws: "\<forall>c\<in>set ''\<newline>    ''. is_space c" by (simp add: is_space_def)
  have nl: "\<forall>c\<in>set ''\<newline>''. is_space c" by (simp add: is_space_def)
  have start: "split_loop (''\<newline>    '' @ rest) [] 0 [] = split_loop rest [] 0 ''\<newline>    ''" for rest
    using depth_scan_split_loop [of 0 "''\<newline>    ''" 0 rest "[]" "[]"] by (simp add: paren_depth_def)
  show ?thesis
  proof (cases "ms = []")
    case True
    then show ?thesis
      by (simp add: split_columns_def strip_def is_space_def)
  next
    case False
    from assms have d: "\<forall>m\<in>set ms. depth_scan 0 m = Some 0" by simp
    from False assms have l: "strip (last ms) \<noteq> []" by simp
    have "strip (''\<newline>    '' @ last ms @ ''\<newline>'') = strip (last ms)"
      using strip_leading [OF ws, of "last ms @ ''\<newline>''"] strip_trailing [OF nl, of "last ms"]
      by simp
    with l False show ?thesis
      unfolding split_columns_def start split_loop_members [OF False d ws]
      by (simp add: snoc_eq_iff_butlast last_map flip: map_butlast)
  qed
qed

lemma strip_keeps_prefix:
  assumes "a \<noteq> []" and "\<not> is_space (hd a)" and "\<not> is_space (last a)"
  shows "\<exists>x'. strip (a @ x) = a @ x'"
proof -
  from assms have 1: "dropWhile is_space (a @ x) = a @ x" by (cases a) auto
  from assms have ra: "dropWhile is_space (rev a) = rev a"
    by (cases "rev a") (auto simp: hd_rev)
  have "\<exists>y. dropWhile is_space (rev x @ rev a) = y @ rev a"
  proof (cases "\<forall>c\<in>set (rev x). is_space c")
    case True
    then have "dropWhile is_space (rev x @ rev a) = dropWhile is_space (rev a)"
      by (simp add: dropWhile_append)
    with ra show ?thesis by simp
  next
    case False
    then have "dropWhile is_space (rev x @ rev a) = dropWhile is_space (rev x) @ rev a"
      by (auto simp: dropWhile_append)
    then show ?thesis by blast
  qed
  then obtain y where "dropWhile is_space (rev x @ rev a) = y @ rev a" by blast
  then have "strip (a @ x) = a @ rev y" by (simp add: strip_def 1)
  then show ?thesis by blast
qed

lemma strip_keeps_nonspace: "c \<in> set s \<Longrightarrow> \<not> is_space c \<Longrightarrow> c \<in> set (strip s)"
proof -
  assume c: "c \<in> set s" and n: "\<not> is_space c"
  have drop_keeps: "c \<in> set xs \<Longrightarrow> c \<in> set (dropWhile is_space xs)" for xs
    using n by (induction xs) auto
  from c have "c \<in> set (dropWhile is_space s)" by (rule drop_keeps)
  then have "c \<in> set (rev (dropWhile is_space s))" by simp
  then have "c \<in> set (dropWhile is_space (rev (dropWhile is_space s)))" by (rule drop_keeps)
  then show ?thesis by (simp add: strip_def)
qed

lemma upper_append: "upper (a @ b) = upper a @ upper b"
  by (simp add: upper_def)

lemma startswith_append: "startswith (p @ x) p"
  by (simp add: startswith_def)

lemma startswithD: "startswith s p \<Longrightarrow> \<exists>x. s = p @ x"
  unfolding startswith_def by (metis append_take_drop_id)

lemma find_from_takeWhile:
  "find_from i c s =
     (if c \<in> set s then i + int (length (takeWhile (\<lambda>x. x \<noteq> c) s)) else -1)"
  by (induction s arbitrary: i) auto

lemma data_member_parses:
  assumes "name \<noteq> []" and "\<forall>c\<in>set name. \<not> is_space c" and "strip d \<noteq> []"
  shows "\<exists>r. split_ws1 (strip (rendered name d)) = [name, r]"
proof -
  from assms(1,2) have hn: "\<not> is_space (hd name)" by (cases name) auto
  from assms(3) have "dropWhile is_space d \<noteq> []"
    by (cases "dropWhile is_space d") (simp_all add: strip_def)
  then have "\<not> (\<forall>x\<in>set d. is_space x)" by (metis dropWhile_eq_Nil_conv)
  then obtain x where x: "x \<in> set d" "\<not> is_space x" by blast
  let ?d' = "rev (dropWhile is_space (rev d))"
  from x have "dropWhile is_space (rev d @ '' '' @ rev name) = dropWhile is_space (rev d) @ '' '' @ rev name"
    by (auto simp: dropWhile_append)
  moreover from assms(1) hn have "dropWhile is_space (name @ '' '' @ d) = name @ '' '' @ d"
    by (cases name) auto
  ultimately have col: "strip (rendered name d) = name @ '' '' @ ?d'"
    by (simp add: strip_def rendered_def)
  from x have x': "x \<in> set ?d'"
  proof -
    have "c \<in> set xs \<Longrightarrow> \<not> is_space c \<Longrightarrow> c \<in> set (dropWhile is_space xs)" for c xs
      by (induction xs) auto
    from this [of x "rev d"] x show ?thesis by simp
  qed
  from assms(1) hn have s1: "dropWhile is_space (name @ '' '' @ ?d') = name @ '' '' @ ?d'"
    by (cases name) auto
  have sp: "is_space CHR '' ''" by (simp add: is_space_def)
  have w: "takeWhile (\<lambda>c. \<not> is_space c) (name @ '' '' @ ?d') = name"
    using assms(2) sp by (simp add: takeWhile_append)
  have dw: "dropWhile (\<lambda>c. \<not> is_space c) (name @ '' '' @ ?d') = '' '' @ ?d'"
    using assms(2) sp by (simp add: dropWhile_append)
  from x' x(2) have r: "dropWhile is_space ('' '' @ ?d') \<noteq> []"
    by (auto simp: dropWhile_eq_Nil_conv)
  show ?thesis
    unfolding col split_ws1_def s1 Let_def w dw using assms(1) r by auto
qed

lemma take_Suc_takeWhile:
  "c \<in> set s \<Longrightarrow> take (Suc (length (takeWhile (\<lambda>x. x \<noteq> c) s))) s = takeWhile (\<lambda>x. x \<noteq> c) s @ [c]"
  by (induction s) auto

lemma strip_nonspace_word: "w \<noteq> [] \<Longrightarrow> \<forall>c\<in>set w. \<not> is_space c \<Longrightarrow> strip w = w"
  by (rule strip_id) (auto intro: hd_in_set last_in_set)

lemma upper_keywords:
  "upper ''PRIMARY KEY'' = ''PRIMARY KEY''" "upper ''FOREIGN KEY'' = ''FOREIGN KEY''"
  "upper ''UNIQUE'' = ''UNIQUE''" "upper ''CHECK'' = ''CHECK''"
  by (simp_all add: upper_def upper_char_def)

lemma startswith_upper: "startswith s p \<Longrightarrow> upper p = p \<Longrightarrow> startswith (upper s) p"
  by (auto dest!: startswithD simp: upper_append startswith_append)

lemma startswith_differ:
  assumes "startswith s p" and "length q \<le> length p" and "take (length q) p \<noteq> q"
  shows "\<not> startswith s q"
proof
  assume "startswith s q"
  then have "take (length q) s = q" by (simp add: startswith_def)
  moreover from assms(1) have "take (length q) p = take (length q) (take (length p) s)"
    by (simp add: startswith_def)
  ultimately have "take (length q) p = q" using assms(2) by (simp add: min_def)
  with assms(3) show False by simp
qed

lemma startswith_hd: "startswith s p \<Longrightarrow> p \<noteq> [] \<Longrightarrow> s \<noteq> [] \<and> hd s = hd p"
  by (auto dest!: startswithD)

lemma stripped_startswith:
  assumes "startswith s p" and "p \<noteq> []" and "\<not> is_space (hd p)" and "\<not> is_space (last p)"
  shows "startswith (strip s) p"
proof -
  from startswithD [OF assms(1)] obtain x where "s = p @ x" by blast
  with strip_keeps_prefix [OF assms(2-4), of x] show ?thesis by (auto simp: startswith_append)
qed

lemma primary_key_parses:
  assumes st: "strip col = col" and pk: "startswith col ''PRIMARY KEY''" and p: "CHR '')'' \<in> set col"
  shows "\<exists>val. parse_member col = Inr (''PRIMARY KEY'', val)"
proof -
  have up: "startswith (upper col) ''PRIMARY KEY''"
    by (rule startswith_upper [OF pk upper_keywords(1)])
  have nf: "\<not> startswith (upper col) ''FOREIGN KEY''"
    by (rule startswith_differ [OF up]) simp_all
  from p have f: "str_find col CHR '')'' \<noteq> -1"
    unfolding str_find_def find_from_takeWhile by simp
  have sk: "strip ''PRIMARY KEY'' = ''PRIMARY KEY''"
    by (simp add: strip_def is_space_def)
  show ?thesis
    unfolding parse_member_def parse_constraint_def st Let_def
    by (simp only: up nf f sk if_True if_False simp_thms) blast
qed

lemma takeWhile_startswith:
  "startswith s p \<Longrightarrow> \<forall>c\<in>set p. P c \<Longrightarrow> startswith (takeWhile P s) p"
  by (auto dest!: startswithD simp: takeWhile_append startswith_append)

lemma startswith_append_right: "startswith s p \<Longrightarrow> startswith (s @ t) p"
proof -
  assume "startswith s p"
  then obtain x where "s = p @ x" by (auto dest: startswithD)
  then have "s @ t = p @ (x @ t)" by simp
  then show ?thesis by (simp only: startswith_append)
qed

lemma startswith_other_hd:
  "startswith s p \<Longrightarrow> p \<noteq> [] \<Longrightarrow> q \<noteq> [] \<Longrightarrow> hd p \<noteq> hd q \<Longrightarrow> \<not> startswith s q"
  using startswith_hd by metis

lemma foreign_key_parses:
  assumes st: "strip col = col" and fk: "startswith col ''FOREIGN KEY''" and p: "CHR '')'' \<in> set col"
  shows "\<exists>key val. parse_member col = Inr (key, val) \<and> startswith key ''FOREIGN KEY''"
proof -
  have up: "startswith (upper col) ''FOREIGN KEY''"
    by (rule startswith_upper [OF fk upper_keywords(2)])
  let ?pre = "takeWhile (\<lambda>c. c \<noteq> CHR '')'') col"
  let ?k = "length ?pre"
  from p have f: "str_find col CHR '')'' = int ?k"
    unfolding str_find_def find_from_takeWhile by simp
  have sl: "slice_to col (int ?k + 1) = ?pre @ '')''"
    using take_Suc_takeWhile [OF p] by (simp add: slice_to_def nat_add_distrib)
  have pre: "startswith ?pre ''FOREIGN KEY''"
    by (rule takeWhile_startswith [OF fk]) simp
  then have key: "startswith (?pre @ '')'') ''FOREIGN KEY''"
    by (rule startswith_append_right)
  from startswith_hd [OF key] have "\<not> is_space (hd (?pre @ '')''))" by (simp add: is_space_def)
  then have sk: "strip (?pre @ '')'') = ?pre @ '')''"
    by (intro strip_id) (simp_all add: is_space_def)
  have "parse_member col = Inr (?pre @ '')'', strip (strip (slice_from col (int ?k + 1))))"
    unfolding parse_member_def parse_constraint_def st Let_def f sl
    by (simp only: up sk if_True simp_thms)
  with key show ?thesis by blast
qed

lemma split_ws1_start:
  "s \<noteq> [] \<Longrightarrow> \<not> is_space (hd s) \<Longrightarrow>
   split_ws1 s =
     (if dropWhile is_space (dropWhile (\<lambda>c. \<not> is_space c) s) = []
      then [takeWhile (\<lambda>c. \<not> is_space c) s]
      else [takeWhile (\<lambda>c. \<not> is_space c) s,
            dropWhile is_space (dropWhile (\<lambda>c. \<not> is_space c) s)])"
  by (cases s) (simp_all add: split_ws1_def Let_def del: dropWhile_eq_Nil_conv)

lemma keyword_constraint_parses:
  assumes kwp: "kw \<noteq> []" "\<forall>c\<in>set kw. \<not> is_space c" "upper kw = kw"
      "hd kw \<noteq> CHR ''F''" "hd kw \<noteq> CHR ''P''"
    and st: "strip col = col"
    and n: "startswith col kw" and two: "length (split_ws1 col) = 2"
  shows "\<exists>key val. parse_member col = Inr (key, val) \<and> startswith key kw"
proof -
  have up: "startswith (upper col) kw" by (rule startswith_upper [OF n kwp(3)])
  have nf: "\<not> startswith (upper col) ''FOREIGN KEY''"
    by (rule startswith_other_hd [OF up kwp(1)]) (use kwp(4) in simp_all)
  have np: "\<not> startswith (upper col) ''PRIMARY KEY''"
    by (rule startswith_other_hd [OF up kwp(1)]) (use kwp(5) in simp_all)
  from kwp(1,2) have "\<not> is_space (hd kw)" by (cases kw) auto
  with startswith_hd [OF n kwp(1)] have s1: "col \<noteq> []" "\<not> is_space (hd col)"
    by simp_all
  let ?w = "takeWhile (\<lambda>c. \<not> is_space c) col"
  let ?r = "dropWhile is_space (dropWhile (\<lambda>c. \<not> is_space c) col)"
  have sp2: "split_ws1 col = [?w, ?r]"
  proof (cases "?r = []")
    case True
    then have "split_ws1 col = [?w]" by (simp only: split_ws1_start [OF s1] if_True simp_thms)
    with two show ?thesis by simp
  next
    case False
    then show ?thesis by (simp only: split_ws1_start [OF s1] if_False simp_thms)
  qed
  have w: "startswith ?w kw" by (rule takeWhile_startswith [OF n kwp(2)])
  from startswith_hd [OF w kwp(1)] have "?w \<noteq> []" by simp
  then have sw: "strip ?w = ?w"
    by (rule strip_nonspace_word) (auto dest: set_takeWhileD)
  have "parse_member col = Inr (?w, strip ?r)"
    by (simp only: parse_member_def parse_column_def sp2 nf np sw if_False simp_thms list.case prod.case)
  with w show ?thesis by blast
qed

lemma parse_member_Nil: "\<exists>e. parse_member [] = Inl e"
  by (simp add: parse_member_def parse_column_def split_ws1_def upper_def startswith_def)

lemma member_parses:
  assumes "member_ok name d"
  shows "strip (rendered name d) \<noteq> [] \<and>
         (\<exists>key val. parse_member (strip (rendered name d)) = Inr (key, val) \<and>
            (if is_constraint_name name then is_constraint_name key else key = name))"
proof -
  let ?col = "strip (rendered name d)"
  have st: "strip ?col = ?col" by (rule strip_idem)
  have ne: "?col \<noteq> []" if "parse_member ?col = Inr (key, val)" for key val
    using that parse_member_Nil by (cases "?col = []") auto
  have "\<exists>key val. parse_member ?col = Inr (key, val) \<and>
      (if is_constraint_name name then is_constraint_name key else key = name)"
  proof (cases "is_constraint_name name")
    case False
    with assms have ok: "name \<noteq> []" "\<forall>c\<in>set name. \<not> is_space c" "strip d \<noteq> []"
      and nk: "\<not> startswith (upper ?col) ''FOREIGN KEY''" "\<not> startswith (upper ?col) ''PRIMARY KEY''"
      by (simp_all add: member_ok_def)
    from data_member_parses [OF ok] obtain r where sp: "split_ws1 ?col = [name, r]" by blast
    have sn: "strip name = name" by (rule strip_nonspace_word [OF ok(1,2)])
    have "parse_member ?col = Inr (name, strip r)"
      by (simp only: parse_member_def parse_column_def sp nk sn if_False simp_thms list.case prod.case)
    with False show ?thesis by simp
  next
    case True
    have cn: "is_constraint_name key" if "startswith key kw"
      "kw \<in> {''PRIMARY KEY'', ''UNIQUE'', ''CHECK'', ''FOREIGN KEY''}" for key kw
      using that by (auto simp: is_constraint_name_def)
    have strip_sw: "startswith ?col kw" if "startswith name kw" "kw \<noteq> []"
      "\<not> is_space (hd kw)" "\<not> is_space (last kw)" for kw
    proof -
      from that(1) have "startswith (rendered name d) kw"
        unfolding rendered_def by (rule startswith_append_right)
      from stripped_startswith [OF this that(2-4)] show ?thesis .
    qed
    consider (pk) "startswith name ''PRIMARY KEY''"
      | (fk) "startswith name ''FOREIGN KEY''"
      | (uq) "\<not> startswith name ''PRIMARY KEY''" "\<not> startswith name ''FOREIGN KEY''"
          "startswith name ''UNIQUE''"
      | (ck) "\<not> startswith name ''PRIMARY KEY''" "\<not> startswith name ''FOREIGN KEY''"
          "startswith name ''CHECK''"
      using True by (auto simp: is_constraint_name_def)
    then have "\<exists>key val. parse_member ?col = Inr (key, val) \<and> is_constraint_name key"
    proof cases
      case pk
      with True assms have p: "CHR '')'' \<in> set (rendered name d)" by (simp add: member_ok_def)
      then have p': "CHR '')'' \<in> set ?col" by (rule strip_keeps_nonspace) (simp add: is_space_def)
      have "startswith ?col ''PRIMARY KEY''" by (rule strip_sw [OF pk]) (simp_all add: is_space_def)
      from primary_key_parses [OF st this p'] cn [of "''PRIMARY KEY''" "''PRIMARY KEY''"]
      show ?thesis by (auto simp: startswith_def)
    next
      case fk
      with True assms have p: "CHR '')'' \<in> set (rendered name d)" by (simp add: member_ok_def)
      then have p': "CHR '')'' \<in> set ?col" by (rule strip_keeps_nonspace) (simp add: is_space_def)
      have "startswith ?col ''FOREIGN KEY''" by (rule strip_sw [OF fk]) (simp_all add: is_space_def)
      from foreign_key_parses [OF st this p'] cn [of _ "''FOREIGN KEY''"]
      show ?thesis by auto
    next
      case uq
      with True assms have two: "length (split_ws1 ?col) = 2" by (simp add: member_ok_def)
      have "startswith ?col ''UNIQUE''" by (rule strip_sw [OF uq(3)]) (simp_all add: is_space_def)
      from keyword_constraint_parses [OF _ _ upper_keywords(3) _ _ st this two] cn [of _ "''UNIQUE''"]
      show ?thesis by (auto simp: is_space_def)
    next
      case ck
      with True assms have two: "length (split_ws1 ?col) = 2" by (simp add: member_ok_def)
      have "startswith ?col ''CHECK''" by (rule strip_sw [OF ck(3)]) (simp_all add: is_space_def)
      from keyword_constraint_parses [OF _ _ upper_keywords(4) _ _ st this two] cn [of _ "''CHECK''"]
      show ?thesis by (auto simp: is_space_def)
    qed
    with True show ?thesis by simp
  qed
  with ne show ?thesis by blast
qed

lemma dict_set_keys: "fst ` set (dict_set k v d) = insert k (fst ` set d)"
  by (induction d) auto

lemma columns_loop_step:
  "columns_loop (col0 # rest) acc =
     (if strip col0 = [] then columns_loop rest acc
      else (case parse_member (strip col0) of
              Inl e \<Rightarrow> Inl e
            | Inr (key, val) \<Rightarrow> columns_loop rest (dict_set key val acc)))"
  by (simp add: parse_member_def Let_def)

lemma columns_loop_keys:
  "list_all2 (\<lambda>col key. strip col \<noteq> [] \<and> (\<exists>val. parse_member (strip col) = Inr (key, val))) cols keys \<Longrightarrow>
   \<exists>res. columns_loop cols acc = Inr res \<and> fst ` set res = fst ` set acc \<union> set keys"
proof (induction cols keys arbitrary: acc rule: list_all2_induct)
  case Nil
  show ?case by simp
next
  case (Cons col cols key keys)
  from Cons.hyps(1) obtain val where ne: "strip col \<noteq> []"
    and pm: "parse_member (strip col) = Inr (key, val)" by blast
  from Cons.IH [of "dict_set key val acc"] obtain res where
    "columns_loop cols (dict_set key val acc) = Inr res"
    "fst ` set res = fst ` set (dict_set key val acc) \<union> set keys" by blast
  then show ?case
    unfolding columns_loop_step using ne pm by (auto simp: dict_set_keys)
qed

lemma list_all2_choice: "\<forall>x\<in>set xs. \<exists>y. R x y \<Longrightarrow> \<exists>ys. list_all2 R xs ys"
proof (induction xs)
  case Nil
  show ?case by simp
next
  case (Cons x xs)
  then obtain y ys where "R x y" "list_all2 R xs ys" by auto
  then have "list_all2 R (x # xs) (y # ys)" by simp
  then show ?case by blast
qed

lemma parsed_data_keys:
  "list_all2 (\<lambda>m key. if is_constraint_name (fst m) then is_constraint_name key else key = fst m) ms keys \<Longrightarrow>
   {k \<in> set keys. \<not> is_constraint_name k} = {n \<in> fst ` set ms. \<not> is_constraint_name n}"
  by (induction ms keys rule: list_all2_induct) (auto split: if_splits)

lemma fields_for_dataclass_set:
  "set (fields_for_dataclass cols) = {n \<in> fst ` set cols. \<not> is_constraint_name n}"
  unfolding fields_for_dataclass_def by (induction cols) auto

lemma create_table_sql_alt:
  "create_table_sql t cols =
     ''CREATE TABLE IF NOT EXISTS '' @ t @ '' ('' @
     (''\<newline>    '' @ join member_sep (map (\<lambda>m. rendered (fst m) (snd m)) (ordered_members cols)) @ ''\<newline>'') @ '');''"
proof -
  have 1: "[col_name @ '' '' @ col_type. (col_name, col_type) \<leftarrow> cols, \<not> is_constraint_name col_name]
      = map (\<lambda>m. rendered (fst m) (snd m)) (filter (\<lambda>m. \<not> is_constraint_name (fst m)) cols)"
    by (induction cols) (auto simp: rendered_def)
  have 2: "[col_name @ '' '' @ col_type. (col_name, col_type) \<leftarrow> cols, is_constraint_name col_name]
      = map (\<lambda>m. rendered (fst m) (snd m)) (filter (\<lambda>m. is_constraint_name (fst m)) cols)"
    by (induction cols) (auto simp: rendered_def)
  show ?thesis
    unfolding create_table_sql_def Let_def 1 2 ordered_members_def member_sep_def by simp
qed

lemma table_columns_round_trip:
  assumes ok: "\<forall>(name, d)\<in>set cols. member_ok name d"
  shows "\<exists>res. columns_loop (split_columns
             (''\<newline>    '' @ join member_sep (map (\<lambda>m. rendered (fst m) (snd m)) (ordered_members cols)) @ ''\<newline>'')) []
           = Inr res \<and>
         set (fields_for_dataclass res) = set (fields_for_dataclass cols)"
proof -
  let ?ms = "ordered_members cols"
  let ?rs = "map (\<lambda>m. rendered (fst m) (snd m)) ?ms"
  have set_ms: "set ?ms = set cols" by (auto simp: ordered_members_def)
  with ok have ok': "\<forall>m\<in>set ?ms. member_ok (fst m) (snd m)" by auto
  have each: "\<forall>m\<in>set ?ms. \<exists>key.
      (strip (strip (rendered (fst m) (snd m))) \<noteq> [] \<and>
       (\<exists>val. parse_member (strip (strip (rendered (fst m) (snd m)))) = Inr (key, val))) \<and>
      (if is_constraint_name (fst m) then is_constraint_name key else key = fst m)"
    using ok' member_parses by (simp only: strip_idem) blast
  from list_all2_choice [OF each] obtain keys where
    keys: "list_all2 (\<lambda>m key.
      (strip (strip (rendered (fst m) (snd m))) \<noteq> [] \<and>
       (\<exists>val. parse_member (strip (strip (rendered (fst m) (snd m)))) = Inr (key, val))) \<and>
      (if is_constraint_name (fst m) then is_constraint_name key else key = fst m)) ?ms keys"
    by blast
  then have k1: "list_all2 (\<lambda>col key. strip col \<noteq> [] \<and> (\<exists>val. parse_member (strip col) = Inr (key, val)))
      (map strip ?rs) keys"
    by (simp add: list_all2_map1 list_all2_mono [OF keys])
  from keys have k2: "list_all2 (\<lambda>m key. if is_constraint_name (fst m) then is_constraint_name key else key = fst m) ?ms keys"
    by (rule list_all2_mono) simp
  have ds: "\<forall>r\<in>set ?rs. depth_scan 0 r = Some 0 \<and> strip r \<noteq> []"
    using ok' member_parses by (auto simp: member_ok_def)
  from columns_loop_keys [OF k1, of "[]"] obtain res where
    res: "columns_loop (map strip ?rs) [] = Inr res" and fk: "fst ` set res = set keys" by auto
  have "set (fields_for_dataclass res) = {k \<in> set keys. \<not> is_constraint_name k}"
    by (simp add: fields_for_dataclass_set fk)
  also have "\<dots> = {n \<in> fst ` set ?ms. \<not> is_constraint_name n}"
    by (rule parsed_data_keys [OF k2])
  also have "\<dots> = set (fields_for_dataclass cols)"
    by (simp add: fields_for_dataclass_set set_ms)
  finally show ?thesis
    unfolding split_columns_body [OF ds] using res by blast
qed

lemma word_not_special:
  "is_word c \<Longrightarrow> \<not> is_space c \<and> c \<noteq> CHR ''('' \<and> c \<noteq> CHR '')'' \<and> c \<noteq> CHR '';''"
  by (auto simp: is_word_def is_space_def Let_def)

lemma ci_startswith_append: "ci_startswith (kw @ x) kw"
  by (simp add: ci_startswith_def upper_append startswith_append)

lemma match_name_at_created:
  assumes "table_name_ok t"
  shows "match_name_at kw (kw @ '' '' @ t @ '' ('' @ rest) = Some t"
proof -
  from assms have t: "t \<noteq> []" "\<forall>c\<in>set t. is_word c" "\<forall>c\<in>set t. \<not> is_space c"
    by (auto simp: table_name_ok_def dest: word_not_special)
  then have ht: "\<not> is_space (hd t)" by (cases t) auto
  have sp: "is_space CHR '' ''" "\<not> is_word CHR '' ''" "\<not> is_space CHR ''(''"
    by (simp_all add: is_space_def is_word_def)
  let ?r = "'' '' @ t @ '' ('' @ rest"
  let ?r1 = "t @ '' ('' @ rest"
  have r: "drop (length kw) (kw @ ?r) = ?r" by simp
  from t(1) ht sp have r1: "dropWhile is_space ?r = ?r1" by (cases t) auto
  from t(2) sp have w: "takeWhile is_word ?r1 = t" by (simp add: takeWhile_append)
  from t(2) sp have dw: "dropWhile is_word ?r1 = '' ('' @ rest" by (simp add: dropWhile_append)
  from sp have r2: "dropWhile is_space ('' ('' @ rest) = ''('' @ rest" by simp
  have ne: "?r \<noteq> ?r1"
  proof
    assume "?r = ?r1"
    then have "length ?r = length ?r1" by (rule arg_cong)
    then show False by simp
  qed
  show ?thesis
    unfolding match_name_at_def r Let_def r1 w dw r2
    using ci_startswith_append [of kw ?r] ne t(1) by simp
qed

lemma search_name_created:
  assumes "table_name_ok t" and "kw \<noteq> []"
  shows "search_name kw (kw @ '' '' @ t @ '' ('' @ rest) = Some t"
proof -
  from assms(2) obtain c cs where "kw @ '' '' @ t @ '' ('' @ rest = c # cs"
    by (cases kw) auto
  with match_name_at_created [OF assms(1), of kw rest] show ?thesis
    by (simp del: match_name_at_def)
qed

lemma extract_table_name_created:
  assumes "table_name_ok t"
  shows "extract_table_name (''CREATE TABLE IF NOT EXISTS '' @ t @ '' ('' @ rest) = Inr t"
proof -
  have "search_name ''CREATE TABLE IF NOT EXISTS'' (''CREATE TABLE IF NOT EXISTS'' @ '' '' @ t @ '' ('' @ rest) = Some t"
    by (rule search_name_created [OF assms]) simp
  then show ?thesis by (simp add: extract_table_name_def)
qed

lemma extract_body_created:
  assumes "table_name_ok t"
  shows "extract_body (''CREATE TABLE IF NOT EXISTS '' @ t @ '' ('' @ body @ '');'') = Some body"
proof -
  from assms have t: "\<forall>c\<in>set t. c \<noteq> CHR ''(''" by (auto simp: table_name_ok_def dest: word_not_special)
  have "dropWhile (\<lambda>c. c \<noteq> CHR ''('') (''CREATE TABLE IF NOT EXISTS '' @ t @ '' ('' @ body @ '');'')
      = ''('' @ body @ '');''"
    using t by (simp add: dropWhile_append)
  moreover have "rev (tl (dropWhile (\<lambda>c. c \<noteq> CHR '')'') (rev (body @ '');'')))) = body"
    by simp
  ultimately show ?thesis by (simp add: extract_body_def)
qed

lemma find_close_terminated:
  "find_close s = None \<Longrightarrow> find_close (s @ '');'' @ rest) = Some (s @ '');'', rest)"
  by (induction s rule: find_close.induct) (auto split: if_splits option.splits)

lemma find_close_append_None:
  "find_close a = None \<Longrightarrow> find_close b = None \<Longrightarrow>
   (a \<noteq> [] \<and> b \<noteq> [] \<longrightarrow> \<not> (last a = CHR '')'' \<and> hd b = CHR '';'')) \<Longrightarrow>
   find_close (a @ b) = None"
proof (induction a rule: find_close.induct)
  case 1
  then show ?case by simp
next
  case (2 c)
  then show ?case by (cases b) auto
next
  case (3 c d cs)
  then show ?case by (auto split: if_splits option.splits)
qed

lemma find_close_no_semicolon: "CHR '';'' \<notin> set s \<Longrightarrow> find_close s = None"
  by (induction s rule: find_close.induct) auto

lemma find_close_join:
  "\<forall>r\<in>set rs. find_close r = None \<Longrightarrow> find_close (join member_sep rs) = None"
proof (induction rs)
  case Nil
  show ?case by simp
next
  case (Cons x rs)
  show ?case
  proof (cases rs)
    case Nil
    with Cons.prems show ?thesis by simp
  next
    case (Cons y ys)
    have sep: "find_close member_sep = None"
      by (rule find_close_no_semicolon) (simp add: member_sep_def)
    from Cons.prems Cons.IH have tail: "find_close (join member_sep rs) = None" by simp
    have t2: "find_close (member_sep @ join member_sep rs) = None"
      by (rule find_close_append_None [OF sep tail]) (simp add: member_sep_def)
    from Cons.prems have x: "find_close x = None" by simp
    have "find_close (x @ member_sep @ join member_sep rs) = None"
      by (rule find_close_append_None [OF x t2]) (simp add: member_sep_def)
    with Cons show ?thesis by simp
  qed
qed

declare split_statements.simps [simp del]

lemma split_statements_Nil: "split_statements [] = []"
  by (subst split_statements.simps) simp

lemma split_statements_created:
  assumes "find_close mid = None"
  shows "split_statements ((''CREATE TABLE'' @ mid @ '');'') @ rest) =
           (''CREATE TABLE'' @ mid @ '');'') # split_statements rest"
proof -
  let ?s = "''CREATE TABLE'' @ mid @ '');'' @ rest"
  have ci: "ci_startswith ?s ''CREATE TABLE''" by (rule ci_startswith_append)
  have d: "drop 12 ?s = mid @ '');'' @ rest" by simp
  have t: "take 12 ?s = ''CREATE TABLE''" by simp
  have ne: "?s \<noteq> []" by simp
  have "split_statements ?s = (''CREATE TABLE'' @ mid @ '');'') # split_statements rest"
    by (subst split_statements.simps)
       (simp only: ne ci d t find_close_terminated [OF assms] if_True if_False option.case prod.case)
  then show ?thesis by simp
qed

lemma no_match_across:
  assumes g: "g \<noteq> []" and n: "\<not> ci_startswith g kw" and l: "upper_char (last g) \<notin> set (upper kw)"
  shows "\<not> ci_startswith (g @ rest) kw"
proof
  assume "ci_startswith (g @ rest) kw"
  then have e: "take (length kw) (upper g @ upper rest) = upper kw"
    by (simp add: ci_startswith_def startswith_def upper_append upper_def)
  show False
  proof (cases "length kw \<le> length g")
    case True
    with e have "take (length kw) (upper g) = upper kw" by (simp add: upper_def)
    with n show False by (simp add: ci_startswith_def startswith_def upper_def)
  next
    case False
    with e have "upper g @ take (length kw - length g) (upper rest) = upper kw"
      by (simp add: upper_def)
    then have "set (upper g) \<subseteq> set (upper kw)" by (metis set_append sup_ge1)
    moreover from g have "upper_char (last g) \<in> set (upper g)"
      by (simp add: upper_def last_in_set)
    ultimately show False using l by blast
  qed
qed

lemma split_statements_skip:
  "g \<noteq> [] \<Longrightarrow> \<not> contains_ci g ''CREATE TABLE'' \<Longrightarrow>
   upper_char (last g) \<notin> set (upper ''CREATE TABLE'') \<Longrightarrow>
   split_statements (g @ rest) = split_statements rest"
proof (induction g)
  case Nil
  then show ?case by simp
next
  case (Cons c g)
  from Cons.prems(2) have here: "\<not> ci_startswith (c # g) ''CREATE TABLE''"
    and there: "\<not> contains_ci g ''CREATE TABLE''" by simp_all
  from no_match_across [OF _ here Cons.prems(3)]
  have nm: "\<not> ci_startswith ((c # g) @ rest) ''CREATE TABLE''" by simp
  have step: "split_statements ((c # g) @ rest) = split_statements (g @ rest)"
    by (subst split_statements.simps) (use nm in simp)
  show ?case
  proof (cases "g = []")
    case True
    with step show ?thesis by simp
  next
    case False
    with Cons.prems(3) have "upper_char (last g) \<notin> set (upper ''CREATE TABLE'')" by simp
    from Cons.IH [OF False there this] step show ?thesis by simp
  qed
qed

lemma contains_ci_hd: "ci_startswith s kw \<Longrightarrow> contains_ci s kw"
  by (cases s) auto

lemma gap_not_stmt: "is_gap s \<Longrightarrow> \<not> is_stmt s"
proof
  assume g: "is_gap s" and "is_stmt s"
  then obtain mid where "s = ''CREATE TABLE'' @ mid @ '');''" by (auto simp: is_stmt_def)
  then have "ci_startswith s ''CREATE TABLE''" by (simp only: ci_startswith_append)
  then have "contains_ci s ''CREATE TABLE''" by (rule contains_ci_hd)
  with g show False by (simp add: is_gap_def)
qed

lemma blank_lines_gap: "is_gap ''\<newline>\<newline>''"
  by (simp add: is_gap_def ci_startswith_def startswith_def upper_def upper_char_def)

lemma split_statements_stmt: "is_stmt s \<Longrightarrow> split_statements (s @ rest) = s # split_statements rest"
  unfolding is_stmt_def using split_statements_created by blast

lemma split_statements_gap: "is_gap s \<Longrightarrow> split_statements (s @ rest) = split_statements rest"
  unfolding is_gap_def using split_statements_skip by blast

lemma split_statements_join:
  "\<forall>s\<in>set xs. is_stmt s \<or> is_gap s \<Longrightarrow>
   split_statements (join ''\<newline>\<newline>'' xs) = filter is_stmt xs"
proof (induction xs)
  case Nil
  show ?case by (simp add: split_statements_Nil)
next
  case (Cons x xs)
  from Cons.prems have x: "is_stmt x \<or> is_gap x" by simp
  have one: "split_statements (x @ rest) = (if is_stmt x then [x] else []) @ split_statements rest" for rest
    using x split_statements_stmt [of x rest] split_statements_gap [of x rest] gap_not_stmt [of x]
    by auto
  show ?case
  proof (cases xs)
    case Nil
    with one [of "[]"] show ?thesis by (simp add: split_statements_Nil)
  next
    case (Cons y ys)
    have "split_statements (join ''\<newline>\<newline>'' (x # xs)) =
        split_statements (x @ ''\<newline>\<newline>'' @ join ''\<newline>\<newline>'' xs)"
      using Cons by simp
    also have "\<dots> = (if is_stmt x then [x] else []) @
        split_statements (''\<newline>\<newline>'' @ join ''\<newline>\<newline>'' xs)"
      by (rule one)
    also have "split_statements (''\<newline>\<newline>'' @ join ''\<newline>\<newline>'' xs) =
        split_statements (join ''\<newline>\<newline>'' xs)"
      by (rule split_statements_gap [OF blank_lines_gap])
    also have "\<dots> = filter is_stmt xs" using Cons.prems by (intro Cons.IH) simp
    finally show ?thesis by simp
  qed
qed

lemma created_is_stmt:
  assumes t: "table_name_ok t" and ok: "\<forall>(name, d)\<in>set cols. member_ok name d"
  shows "is_stmt (create_table_sql t cols)"
proof -
  let ?rs = "map (\<lambda>m. rendered (fst m) (snd m)) (ordered_members cols)"
  let ?A = "'' IF NOT EXISTS '' @ t @ '' ('' @ ''\<newline>    ''"
  let ?B = "join member_sep ?rs @ ''\<newline>''"
  from ok have "\<forall>r\<in>set ?rs. find_close r = None"
    by (auto simp: ordered_members_def member_ok_def)
  then have j: "find_close (join member_sep ?rs) = None" by (rule find_close_join)
  have nl: "find_close ''\<newline>'' = None" by simp
  have b: "find_close ?B = None"
    by (rule find_close_append_None [OF j nl]) simp
  from t have "CHR '';'' \<notin> set ?A" by (auto simp: table_name_ok_def dest: word_not_special)
  then have a: "find_close ?A = None" by (rule find_close_no_semicolon)
  have "find_close (?A @ ?B) = None"
    by (rule find_close_append_None [OF a b]) simp
  moreover have "create_table_sql t cols = ''CREATE TABLE'' @ (?A @ ?B) @ '');''"
    unfolding create_table_sql_alt by simp
  ultimately show ?thesis unfolding is_stmt_def by blast
qed

lemma index_is_gap:
  assumes "g \<in> set (table_indexes idxs t cols)" and "\<not> contains_ci g ''CREATE TABLE''"
  shows "is_gap g"
proof -
  from assms(1) obtain c where "g = index_sql t c" by (auto simp: table_indexes_def)
  then have "g \<noteq> []" "last g = CHR '';''" by (simp_all add: index_sql_def)
  with assms(2) show ?thesis by (simp add: is_gap_def upper_def upper_char_def)
qed

lemma filter_created:
  assumes "\<forall>(t, cols)\<in>set schema.
        table_name_ok t \<and> (\<forall>(name, d)\<in>set cols. member_ok name d) \<and>
        (\<forall>g\<in>set (table_indexes idxs t cols). \<not> contains_ci g ''CREATE TABLE'')"
  shows "(\<forall>s\<in>set (sql_statements schema idxs). is_stmt s \<or> is_gap s) \<and>
         filter is_stmt (sql_statements schema idxs) = map (\<lambda>(t, cols). create_table_sql t cols) schema"
  using assms
proof (induction schema)
  case Nil
  show ?case by (simp add: sql_statements_def)
next
  case (Cons tc schema)
  obtain t cols where tc: "tc = (t, cols)" by (cases tc) auto
  from Cons.prems have here: "table_name_ok t" "\<forall>(name, d)\<in>set cols. member_ok name d"
      "\<forall>g\<in>set (table_indexes idxs t cols). \<not> contains_ci g ''CREATE TABLE''"
    and rest: "\<forall>(t, cols)\<in>set schema.
        table_name_ok t \<and> (\<forall>(name, d)\<in>set cols. member_ok name d) \<and>
        (\<forall>g\<in>set (table_indexes idxs t cols). \<not> contains_ci g ''CREATE TABLE'')"
    by (auto simp: tc)
  have st: "is_stmt (create_table_sql t cols)" by (rule created_is_stmt [OF here(1,2)])
  have gaps: "\<forall>g\<in>set (table_indexes idxs t cols). is_gap g"
    using here(3) index_is_gap by blast
  then have nf: "filter is_stmt (table_indexes idxs t cols) = []"
    by (auto simp: filter_empty_conv dest: gap_not_stmt)
  have unfold: "sql_statements ((t, cols) # schema) idxs =
      create_table_sql t cols # table_indexes idxs t cols @ sql_statements schema idxs"
    by (simp add: sql_statements_def)
  from Cons.IH [OF rest] st gaps nf show ?case unfolding tc unfold by auto
qed

lemma dict_set_fresh: "k \<notin> fst ` set d \<Longrightarrow> dict_set k v d = d @ [(k, v)]"
  by (induction d) auto

lemma parse_loop_created:
  assumes "\<forall>(t, cols)\<in>set schema. table_name_ok t \<and> (\<forall>(name, d)\<in>set cols. member_ok name d)"
    and "distinct (map fst schema)" and "fst ` set acc \<inter> fst ` set schema = {}"
  shows "\<exists>out. parse_loop (map (\<lambda>(t, cols). create_table_sql t cols) schema) acc = Inr (acc @ out) \<and>
           list_all2 same_data_columns schema out"
  using assms
proof (induction schema arbitrary: acc)
  case Nil
  show ?case by simp
next
  case (Cons tc schema)
  obtain t cols where tc: "tc = (t, cols)" by (cases tc) auto
  from Cons.prems(1) have t: "table_name_ok t" and ok: "\<forall>(name, d)\<in>set cols. member_ok name d"
    and rest: "\<forall>(t, cols)\<in>set schema. table_name_ok t \<and> (\<forall>(name, d)\<in>set cols. member_ok name d)"
    by (auto simp: tc)
  let ?body = "''\<newline>    '' @ join member_sep (map (\<lambda>m. rendered (fst m) (snd m)) (ordered_members cols)) @ ''\<newline>''"
  have name: "extract_table_name (create_table_sql t cols) = Inr t"
    unfolding create_table_sql_alt by (rule extract_table_name_created [OF t])
  have body: "extract_body (create_table_sql t cols) = Some ?body"
    unfolding create_table_sql_alt by (rule extract_body_created [OF t])
  from table_columns_round_trip [OF ok] obtain res where
    res: "columns_loop (split_columns ?body) [] = Inr res"
    and same: "set (fields_for_dataclass res) = set (fields_for_dataclass cols)" by blast
  have cols: "extract_columns (create_table_sql t cols) = Inr res"
    by (simp only: extract_columns_def body res option.case)
  from Cons.prems(3) have fresh: "t \<notin> fst ` set acc" by (auto simp: tc)
  from Cons.prems(2,3) have d: "distinct (map fst schema)"
    and disj: "fst ` set (acc @ [(t, res)]) \<inter> fst ` set schema = {}"
    by (auto simp: tc)
  from Cons.IH [OF rest d disj] obtain out where
    out: "parse_loop (map (\<lambda>(t, cols). create_table_sql t cols) schema) (acc @ [(t, res)])
        = Inr ((acc @ [(t, res)]) @ out)"
    and rel: "list_all2 same_data_columns schema out" by blast
  have "parse_loop (map (\<lambda>(t, cols). create_table_sql t cols) (tc # schema)) acc
      = Inr (acc @ (t, res) # out)"
    by (simp add: tc name cols dict_set_fresh [OF fresh] out)
  moreover have "list_all2 same_data_columns (tc # schema) ((t, res) # out)"
    using rel same by (simp add: tc same_data_columns_def)
  ultimately show ?case by blast
qed

text \<open>
  Claim C7 as it is written fails: the parser splits at every comma outside
  parentheses, also inside a quoted default. The schema with the one column
  \<open>status TEXT DEFAULT 'a, b c' NOT NULL\<close> comes back with the two data columns \<open>status\<close>
  and \<open>b\<close>.
\<close>

theorem round_trip_quoted_comma_counterexample:
  "parse (fst (generate_sql [(''t'', [(''status'', ''TEXT DEFAULT 'a, b c' NOT NULL'')])] None)) =
     Inr [(''t'', [(''status'', ''TEXT DEFAULT 'a''), (''b'', ''c' NOT NULL'')])] \<and>
   fields_for_dataclass [(''status'', ''TEXT DEFAULT 'a, b c' NOT NULL'')] = [''status''] \<and>
   fields_for_dataclass [(''status'', ''TEXT DEFAULT 'a''), (''b'', ''c' NOT NULL'')] =
     [''status'', ''b'']"
  by code_simp

text \<open>
  Claim C7, amended. For every schema that is \<open>round_trip_ready\<close> and every list of
  index hints, parsing the generated SQL text succeeds and yields a schema with the same
  table names in the same order, each table with the same set of data columns as in the
  original.
\<close>

theorem round_trip_data_columns:
  assumes "round_trip_ready schema idxs"
  shows "\<exists>schema'. parse (fst (generate_sql schema idxs)) = Inr schema' \<and>
           list_all2 same_data_columns schema schema'"
proof -
  from assms have d: "distinct (map fst schema)"
    and all: "\<forall>(t, cols)\<in>set schema.
        table_name_ok t \<and> (\<forall>(name, d)\<in>set cols. member_ok name d) \<and>
        (\<forall>g\<in>set (table_indexes idxs t cols). \<not> contains_ci g ''CREATE TABLE'')"
    by (simp_all add: round_trip_ready_def)
  from filter_created [OF all] have
    "split_statements (join ''\<newline>\<newline>'' (sql_statements schema idxs)) =
       map (\<lambda>(t, cols). create_table_sql t cols) schema"
    using split_statements_join by auto
  moreover from all have "\<forall>(t, cols)\<in>set schema. table_name_ok t \<and> (\<forall>(name, d)\<in>set cols. member_ok name d)"
    by auto
  from parse_loop_created [OF this d, of "[]"] obtain out where
    "parse_loop (map (\<lambda>(t, cols). create_table_sql t cols) schema) [] = Inr out"
    "list_all2 same_data_columns schema out" by auto
  ultimately show ?thesis by (auto simp: parse_def generate_sql_def)
qed

theorem round_trip_data_columns_witness:
  "round_trip_ready shop_schema (Some [''customer_id'']) \<and>
   (\<exists>schema'. parse (fst (generate_sql shop_schema (Some [''customer_id'']))) = Inr schema' \<and>
      list_all2 same_data_columns shop_schema schema')"
proof -
  have h: "round_trip_ready shop_schema (Some [''customer_id''])" by code_simp
  from round_trip_data_columns [OF h] h show ?thesis by blast
qed

end
